theory Spec2Isabelle
  imports Main "HOL-Library.Sublist"
begin

section \<open>Strings\<close>

text \<open>
  A Python \<^verbatim>\<open>str\<close> is modelled as a \<open>string\<close>, one \<open>char\<close> per code point, so the
  model covers the text whose code points are below 256 (everything the script generates is
  ASCII). \<^verbatim>\<open>sep.join(xs)\<close> is \<open>join sep xs\<close>.
\<close>

fun join :: "string \<Rightarrow> string list \<Rightarrow> string" where
  "join sep [] = []"
| "join sep [x] = x"
| "join sep (x # y # ys) = x @ sep @ join sep (y # ys)"

text \<open>
  \<^verbatim>\<open>str.isspace\<close> on one character: below 256 the whitespace code points are
  9 to 13, 28 to 32, 133 and 160. \<^verbatim>\<open>str.rstrip()\<close> and \<^verbatim>\<open>str.strip()\<close> remove them from
  the end, and from both ends.
\<close>

definition py_isspace :: "char \<Rightarrow> bool" where
  "py_isspace c =
     (let n = (of_char c :: nat)
      in (9 \<le> n \<and> n \<le> 13) \<or> (28 \<le> n \<and> n \<le> 32) \<or> n = 133 \<or> n = 160)"

definition rstrip :: "string \<Rightarrow> string" where
  "rstrip s = rev (dropWhile py_isspace (rev s))"

definition strip :: "string \<Rightarrow> string" where
  "strip s = dropWhile py_isspace (rstrip s)"

definition endswith :: "string \<Rightarrow> string \<Rightarrow> bool" where
  "endswith s suf = (length suf \<le> length s \<and> drop (length s - length suf) s = suf)"

text \<open>
  A slice \<^verbatim>\<open>s[:n]\<close> and \<^verbatim>\<open>s[n:]\<close> with Python's reading of a negative bound, which
  counts from the end.
\<close>

definition py_take :: "int \<Rightarrow> 'a list \<Rightarrow> 'a list" where
  "py_take n xs = (if 0 \<le> n then take (nat n) xs else take (length xs - nat (- n)) xs)"

definition py_drop :: "int \<Rightarrow> 'a list \<Rightarrow> 'a list" where
  "py_drop n xs = (if 0 \<le> n then drop (nat n) xs else drop (length xs - nat (- n)) xs)"

text \<open>
  \<^verbatim>\<open>str.capitalize()\<close>: the first character in upper case, the others in lower case.
  The case mappings are those of the ASCII letters; the script capitalises words of its
  word pool only, which are ASCII.
\<close>

definition lower_letters :: string where
  "lower_letters = ''abcdefghijklmnopqrstuvwxyz''"

definition upper_letters :: string where
  "upper_letters = ''ABCDEFGHIJKLMNOPQRSTUVWXYZ''"

definition to_upper :: "char \<Rightarrow> char" where
  "to_upper c = (case map_of (zip lower_letters upper_letters) c of Some u \<Rightarrow> u | None \<Rightarrow> c)"

definition to_lower :: "char \<Rightarrow> char" where
  "to_lower c = (case map_of (zip upper_letters lower_letters) c of Some l \<Rightarrow> l | None \<Rightarrow> c)"

fun capitalize :: "string \<Rightarrow> string" where
  "capitalize [] = []"
| "capitalize (c # cs) = to_upper c # map to_lower cs"

section \<open>The word pool and the random generator\<close>

text \<open>The value of \<^verbatim>\<open>LOREM_WORDS\<close>: the 69 words its string literal splits into.\<close>

definition LOREM_WORDS :: "string list" where
  "LOREM_WORDS =
   [''lorem'', ''ipsum'', ''dolor'', ''sit'', ''amet'', ''consectetur'', ''adipiscing'',
    ''elit'', ''sed'', ''do'', ''eiusmod'', ''tempor'', ''incididunt'', ''ut'', ''labore'',
    ''et'', ''dolore'', ''magna'', ''aliqua'', ''ut'', ''enim'', ''ad'', ''minim'',
    ''veniam'', ''quis'', ''nostrud'', ''exercitation'', ''ullamco'', ''laboris'', ''nisi'',
    ''ut'', ''aliquip'', ''ex'', ''ea'', ''commodo'', ''consequat'', ''duis'', ''aute'',
    ''irure'', ''dolor'', ''in'', ''reprehenderit'', ''in'', ''voluptate'', ''velit'',
    ''esse'', ''cillum'', ''dolore'', ''eu'', ''fugiat'', ''nulla'', ''pariatur'',
    ''excepteur'', ''sint'', ''occaecat'', ''cupidatat'', ''non'', ''proident'', ''sunt'',
    ''in'', ''culpa'', ''qui'', ''officia'', ''deserunt'', ''mollit'', ''anim'', ''id'',
    ''est'', ''laborum'']"

text \<open>
  \<^verbatim>\<open>random.Random\<close> is the standard library's generator; the script reaches it through
  \<^verbatim>\<open>choice\<close> and \<^verbatim>\<open>randint\<close>, and both take one number below a bound from it
  (\<^verbatim>\<open>_randbelow(n)\<close>): \<^verbatim>\<open>choice(seq)\<close> is \<^verbatim>\<open>seq[_randbelow(len(seq))]\<close> and
  \<^verbatim>\<open>randint(a, b)\<close> is \<^verbatim>\<open>a + _randbelow(b - a + 1)\<close>. A generator state is modelled
  as the sequence of raw numbers it is going to deliver and the number of them already
  taken; \<open>randbelow n\<close> reduces the next raw number below \<open>n\<close>. Every sequence of results
  a generator can give to a program is the behaviour of one such state, so a statement
  about every state covers every generator and every seed.
\<close>

record rng =
  draws :: "nat \<Rightarrow> nat"
  pos :: nat

definition randbelow :: "nat \<Rightarrow> rng \<Rightarrow> nat \<times> rng" where
  "randbelow n r = (draws r (pos r) mod n, r\<lparr>pos := Suc (pos r)\<rparr>)"

definition choice :: "'a list \<Rightarrow> rng \<Rightarrow> 'a \<times> rng" where
  "choice xs r = (case randbelow (length xs) r of (i, r') \<Rightarrow> (xs ! i, r'))"

definition randint :: "int \<Rightarrow> int \<Rightarrow> rng \<Rightarrow> int \<times> rng" where
  "randint a b r = (case randbelow (nat (b - a + 1)) r of (k, r') \<Rightarrow> (a + int k, r'))"

section \<open>Title and paragraph generation\<close>

text \<open>
  \<^verbatim>\<open>gen_title\<close>: the \<^verbatim>\<open>while\<close> loop is \<open>gen_title_loop\<close>, with the list \<^verbatim>\<open>words\<close> and
  the generator as its state.
\<close>

function gen_title_loop :: "int \<Rightarrow> string list \<Rightarrow> rng \<Rightarrow> string list \<times> rng" where
  "gen_title_loop char_count words r =
     (if int (length (join '' '' words)) < char_count then
        (case choice LOREM_WORDS r of
           (w, r') \<Rightarrow>
             gen_title_loop char_count (words @ [if words = [] then capitalize w else w]) r')
      else (words, r))"
  by pat_completeness auto

definition gen_title :: "int \<Rightarrow> rng \<Rightarrow> string \<times> rng" where
  "gen_title char_count r =
     (if char_count \<le> 0 then ('''', r)
      else (case gen_title_loop char_count [] r of
              (words, r') \<Rightarrow>
                (strip (rstrip (py_take char_count (join '' '' words))), r')))"

text \<open>
  \<^verbatim>\<open>gen_paragraph\<close>: the loop state is \<^verbatim>\<open>words\<close>, \<^verbatim>\<open>char_len\<close>, \<^verbatim>\<open>sentence_len\<close>,
  \<^verbatim>\<open>words_in_sentence\<close> and the generator. \<^verbatim>\<open>words[-1] = words[-1] + "."\<close> runs after the
  append, on a list that is not empty.
\<close>

function gen_paragraph_loop ::
  "int \<Rightarrow> string list \<Rightarrow> int \<Rightarrow> int \<Rightarrow> int \<Rightarrow> rng \<Rightarrow> string list \<times> rng" where
  "gen_paragraph_loop target_chars words char_len sentence_len words_in_sentence r =
     (if char_len < target_chars then
        (case choice LOREM_WORDS r of
           (w0, r1) \<Rightarrow>
             (let w = (if words_in_sentence = 0 then capitalize w0 else w0);
                  words1 = words @ [w];
                  words_in_sentence1 = words_in_sentence + 1;
                  char_len1 = int (length (join '' '' words1))
              in if sentence_len \<le> words_in_sentence1 then
                   (case randint 6 20 r1 of
                      (sentence_len1, r2) \<Rightarrow>
                        gen_paragraph_loop target_chars
                          (butlast words1 @ [last words1 @ ''.'']) char_len1 sentence_len1 0 r2)
                 else gen_paragraph_loop target_chars words1 char_len1 sentence_len
                        words_in_sentence1 r1))
      else (words, r))"
  by pat_completeness auto

definition gen_paragraph :: "int \<Rightarrow> rng \<Rightarrow> string \<times> rng" where
  "gen_paragraph target_chars r =
     (if target_chars \<le> 0 then ('''', r)
      else (case randint 8 16 r of
              (sentence_len, r1) \<Rightarrow>
                (case gen_paragraph_loop target_chars [] 0 sentence_len 0 r1 of
                   (words, r2) \<Rightarrow>
                     (let paragraph = strip (join '' '' words)
                      in (if endswith paragraph ''.'' then paragraph else paragraph @ ''.'',
                          r2)))))"

section \<open>Character budget distribution\<close>

text \<open>
  \<^verbatim>\<open>distribute_chars(total_chars, paragraphs)\<close> of \<^verbatim>\<open>scripts/generate_lorem.py\<close>.
  Python's \<^verbatim>\<open>//\<close> and \<^verbatim>\<open>%\<close> on integers are floor division and the remainder with
  the sign of the divisor, which is what \<open>div\<close> and \<open>mod\<close> are on \<open>int\<close>;
  \<^verbatim>\<open>range(paragraphs)\<close> is the list \<open>[0..paragraphs - 1]\<close>.
\<close>

definition distribute_chars :: "int \<Rightarrow> int \<Rightarrow> int list" where
  "distribute_chars total_chars paragraphs =
     (if paragraphs \<le> 0 then []
      else let base = total_chars div paragraphs;
               remainder = total_chars mod paragraphs
           in map (\<lambda>i. base + (if i < remainder then 1 else 0)) [0..paragraphs - 1])"

text \<open>
  The adjustment \<^verbatim>\<open>main\<close> applies to \<^verbatim>\<open>total_chars\<close> before it distributes it:
  \<^verbatim>\<open>if total_chars < paragraphs * 20: total_chars = max(total_chars, paragraphs * 20)\<close>.
\<close>

definition effective_total :: "int \<Rightarrow> int \<Rightarrow> int" where
  "effective_total total_chars paragraphs =
     (if total_chars < paragraphs * 20 then max total_chars (paragraphs * 20)
      else total_chars)"

section \<open>Line wrapping: the standard library's \<^verbatim>\<open>textwrap.fill\<close>\<close>

text \<open>
  \<^verbatim>\<open>render_markdown\<close> wraps with \<^verbatim>\<open>textwrap.fill(p, width=max_line_len)\<close>, that is a
  \<^verbatim>\<open>TextWrapper\<close> with its default options: tabs expanded to columns of 8, whitespace
  replaced by spaces, long words broken, whitespace dropped at line ends, breaks allowed
  after hyphens, no indent and no limit on the number of lines. The definitions below follow
  CPython's \<^verbatim>\<open>textwrap.py\<close> with these options.

  The character classes of its regular expressions, below 256: \<^verbatim>\<open>\w\<close> (\<open>re_word\<close>),
  \<^verbatim>\<open>[^\d\W]\<close> (\<open>re_letter\<close>), \<^verbatim>\<open>[\w!"'&.,?]\<close> (\<open>word_punct\<close>) and the whitespace of
  \<^verbatim>\<open>textwrap\<close>, which is tab, line feed, vertical tab, form feed, carriage return and space.
\<close>

datatype error = ValueError

definition re_digit :: "char \<Rightarrow> bool" where
  "re_digit c = (let n = (of_char c :: nat) in 48 \<le> n \<and> n \<le> 57)"

definition re_word :: "char \<Rightarrow> bool" where
  "re_word c =
     (let n = (of_char c :: nat)
      in (48 \<le> n \<and> n \<le> 57) \<or> (65 \<le> n \<and> n \<le> 90) \<or> n = 95 \<or> (97 \<le> n \<and> n \<le> 122) \<or>
         n = 170 \<or> (178 \<le> n \<and> n \<le> 179) \<or> n = 181 \<or> (185 \<le> n \<and> n \<le> 186) \<or>
         (188 \<le> n \<and> n \<le> 190) \<or> (192 \<le> n \<and> n \<le> 214) \<or> (216 \<le> n \<and> n \<le> 246) \<or>
         (248 \<le> n \<and> n \<le> 255))"

definition re_letter :: "char \<Rightarrow> bool" where
  "re_letter c = (re_word c \<and> \<not> re_digit c)"

definition word_punct :: "char \<Rightarrow> bool" where
  "word_punct c =
     (re_word c \<or> c \<in> {CHR ''!'', CHR 0x22, CHR ''&'', CHR 0x27, CHR ''.'', CHR '','', CHR ''?''})"

definition tw_whitespace :: "char \<Rightarrow> bool" where
  "tw_whitespace c = (c \<in> {CHR 0x09, CHR 0x0A, CHR 0x0B, CHR 0x0C, CHR 0x0D, CHR '' ''})"

text \<open>
  \<^verbatim>\<open>_munge_whitespace\<close>: \<^verbatim>\<open>text.expandtabs(8)\<close>, where the column starts again after a line
  feed or a carriage return, then every whitespace character becomes a space.
\<close>

fun expandtabs :: "nat \<Rightarrow> string \<Rightarrow> string" where
  "expandtabs col [] = []"
| "expandtabs col (c # cs) =
     (if c = CHR 0x09 then
        (let incr = 8 - col mod 8
         in replicate incr (CHR '' '') @ expandtabs (col + incr) cs)
      else c # expandtabs (if c = CHR 0x0A \<or> c = CHR 0x0D then 0 else col + 1) cs)"

definition munge_whitespace :: "string \<Rightarrow> string" where
  "munge_whitespace text =
     map (\<lambda>c. if tw_whitespace c then CHR '' '' else c) (expandtabs 0 text)"

text \<open>
  \<^verbatim>\<open>_split\<close>: \<^verbatim>\<open>wordsep_re.split(text)\<close> without the empty strings. The expression matches
  at every position of the text, so the chunks are its successive matches: a run of
  whitespace; or two or more hyphens after a \<open>word_punct\<close> character and before a \<^verbatim>\<open>\w\<close>
  character (\<open>emdash_len\<close>); or the shortest run of other characters that stops after the
  hyphen of a hyphenated word (\<open>hyphen_break\<close>), before whitespace or the end of the text,
  or after a \<open>word_punct\<close> character before such hyphens. The look-behinds read the text
  before the position, kept reversed in \<open>prev\<close>.
\<close>

definition emdash_len :: "string \<Rightarrow> nat option" where
  "emdash_len s =
     (let k = length (takeWhile (\<lambda>c. c = CHR ''-'') s)
      in if 2 \<le> k \<and> (case drop k s of [] \<Rightarrow> False | c # _ \<Rightarrow> re_word c) then Some k
         else None)"

text \<open>A letter, an optional hyphen, a letter, at the head of the string.\<close>

definition two_letters :: "string \<Rightarrow> bool" where
  "two_letters s =
     (case s of
        a # b # rest \<Rightarrow>
          re_letter a \<and>
          (re_letter b \<or> (b = CHR ''-'' \<and> (case rest of [] \<Rightarrow> False | c # _ \<Rightarrow> re_letter c)))
      | _ \<Rightarrow> False)"

definition hyphen_break :: "string \<Rightarrow> string \<Rightarrow> bool" where
  "hyphen_break prev rest =
     (case rest of
        [] \<Rightarrow> False
      | c # after \<Rightarrow> c = CHR ''-'' \<and> two_letters prev \<and> two_letters after)"

fun word_chunk :: "string \<Rightarrow> string \<Rightarrow> string \<Rightarrow> string \<times> string" where
  "word_chunk prev acc [] = (acc, [])"
| "word_chunk prev acc (c # cs) =
     (if hyphen_break prev (c # cs) then (acc @ [c], cs)
      else if tw_whitespace c then (acc, c # cs)
      else if (case prev of [] \<Rightarrow> False | p # _ \<Rightarrow> word_punct p) \<and> emdash_len (c # cs) \<noteq> None
      then (acc, c # cs)
      else word_chunk (c # prev) (acc @ [c]) cs)"

function split_from :: "string \<Rightarrow> string \<Rightarrow> string list" where
  "split_from prev [] = []"
| "split_from prev (c # cs) =
     (if tw_whitespace c then
        (let run = takeWhile tw_whitespace (c # cs)
         in run # split_from (rev run @ prev) (dropWhile tw_whitespace (c # cs)))
      else
        (case (if (case prev of [] \<Rightarrow> False | p # _ \<Rightarrow> word_punct p) then emdash_len (c # cs)
               else None) of
           Some k \<Rightarrow>
             take k (c # cs) # split_from (rev (take k (c # cs)) @ prev) (drop k (c # cs))
         | None \<Rightarrow>
             (case word_chunk (c # prev) [c] cs of
                (chunk, rest) \<Rightarrow> chunk # split_from (rev chunk @ prev) rest)))"
  by pat_completeness auto

definition split_chunks :: "string \<Rightarrow> string list" where
  "split_chunks text = split_from [] (munge_whitespace text)"

text \<open>
  \<^verbatim>\<open>_wrap_chunks\<close>. The source reverses the chunk list and pops from its end; here the
  next chunk is the head of the list. \<open>fill_line\<close> is the inner \<^verbatim>\<open>while\<close> loop, which puts
  chunks on the current line while they fit.
\<close>

fun fill_line ::
  "int \<Rightarrow> string list \<Rightarrow> int \<Rightarrow> string list \<Rightarrow> string list \<times> int \<times> string list" where
  "fill_line width cur_line cur_len [] = (cur_line, cur_len, [])"
| "fill_line width cur_line cur_len (c # chunks) =
     (if cur_len + int (length c) \<le> width then
        fill_line width (cur_line @ [c]) (cur_len + int (length c)) chunks
      else (cur_line, cur_len, c # chunks))"

text \<open>
  \<^verbatim>\<open>chunk.rfind('-', 0, space_left)\<close> is the last index of a hyphen in
  \<^verbatim>\<open>chunk[:space_left]\<close>, or \<open>-1\<close>.
\<close>

definition rfind :: "char \<Rightarrow> string \<Rightarrow> int" where
  "rfind c s =
     (if c \<in> set s then int (length s) - 1 - int (length (takeWhile (\<lambda>x. x \<noteq> c) (rev s)))
      else - 1)"

text \<open>
  \<^verbatim>\<open>_handle_long_word\<close>, called with a chunk list that is not empty: as much of the next
  chunk as fits goes on the current line, or its part up to the last hyphen that fits.
\<close>

fun handle_long_word ::
  "string list \<Rightarrow> string list \<Rightarrow> int \<Rightarrow> int \<Rightarrow> string list \<times> string list" where
  "handle_long_word [] cur_line cur_len width = (cur_line, [])"
| "handle_long_word (chunk # chunks) cur_line cur_len width =
     (let space_left = (if width < 1 then 1 else width - cur_len);
          hyphen = rfind (CHR ''-'') (py_take space_left chunk);
          end = (if space_left < int (length chunk) \<and> 0 < hyphen \<and>
                    (\<exists>c \<in> set (py_take hyphen chunk). c \<noteq> CHR ''-'')
                 then hyphen + 1 else space_left)
      in (cur_line @ [py_take end chunk], py_drop end chunk # chunks))"

text \<open>
  One round of the outer loop: it returns the chunks of the line it has built and the chunks
  that are left. \<open>started\<close> says whether \<^verbatim>\<open>lines\<close> holds a line already; a chunk is all
  whitespace when \<^verbatim>\<open>chunk.strip() == ''\<close>.
\<close>

definition wrap_step :: "int \<Rightarrow> bool \<Rightarrow> string list \<Rightarrow> string list \<times> string list" where
  "wrap_step width started chunks =
     (let chunks1 = (case chunks of
                       [] \<Rightarrow> []
                     | c # rest \<Rightarrow> if strip c = [] \<and> started then rest else chunks)
      in case fill_line width [] 0 chunks1 of
           (cur_line, cur_len, chunks2) \<Rightarrow>
             (case (case chunks2 of
                      [] \<Rightarrow> (cur_line, chunks2)
                    | c # _ \<Rightarrow>
                        if width < int (length c)
                        then handle_long_word chunks2 cur_line cur_len width
                        else (cur_line, chunks2)) of
                (cur_line1, chunks3) \<Rightarrow>
                  (if cur_line1 \<noteq> [] \<and> strip (last cur_line1) = [] then butlast cur_line1
                   else cur_line1,
                   chunks3)))"

text \<open>
  The outer loop. It runs with a positive width only, since \<^verbatim>\<open>_wrap_chunks\<close> raises
  \<^verbatim>\<open>ValueError\<close> before it otherwise; the loop's guard repeats that test.
\<close>

function wrap_loop :: "int \<Rightarrow> string list \<Rightarrow> string list \<Rightarrow> string list" where
  "wrap_loop width lines chunks =
     (if chunks = [] \<or> width \<le> 0 then lines
      else (case wrap_step width (lines \<noteq> []) chunks of
              (cur_line, chunks') \<Rightarrow>
                wrap_loop width
                  (if cur_line \<noteq> [] then lines @ [concat cur_line] else lines) chunks'))"
  by pat_completeness auto

definition wrap_chunks :: "int \<Rightarrow> string list \<Rightarrow> error + string list" where
  "wrap_chunks width chunks =
     (if width \<le> 0 then Inl ValueError else Inr (wrap_loop width [] chunks))"

definition wrap :: "string \<Rightarrow> int \<Rightarrow> error + string list" where
  "wrap text width = wrap_chunks width (split_chunks text)"

definition fill :: "string \<Rightarrow> int \<Rightarrow> error + string" where
  "fill text width =
     (case wrap text width of Inl e \<Rightarrow> Inl e | Inr lines \<Rightarrow> Inr (join [CHR 0x0A] lines))"

section \<open>Markdown rendering\<close>

text \<open>
  \<^verbatim>\<open>render_markdown\<close>: \<open>render_paragraphs\<close> is its \<^verbatim>\<open>for\<close> loop over the paragraphs, which
  appends to \<^verbatim>\<open>parts\<close> and stops at the first exception.
\<close>

fun render_paragraphs :: "int \<Rightarrow> string list \<Rightarrow> string list \<Rightarrow> error + string list" where
  "render_paragraphs max_line_len parts [] = Inr parts"
| "render_paragraphs max_line_len parts (p # ps) =
     (case fill p max_line_len of
        Inl e \<Rightarrow> Inl e
      | Inr wrapped \<Rightarrow> render_paragraphs max_line_len (parts @ [wrapped, '''']) ps)"

definition render_markdown :: "string \<Rightarrow> string list \<Rightarrow> int \<Rightarrow> error + string" where
  "render_markdown title paragraphs max_line_len =
     (case render_paragraphs max_line_len
             (if title \<noteq> [] then [''# '' @ title, ''''] else []) paragraphs of
        Inl e \<Rightarrow> Inl e
      | Inr parts \<Rightarrow>
          Inr (join [CHR 0x0A]
                 (if parts \<noteq> [] \<and> last parts = '''' then butlast parts else parts)))"

section \<open>The pipeline of \<^verbatim>\<open>main\<close>\<close>

text \<open>
  The settings \<^verbatim>\<open>main\<close> reads. A seed of \<^verbatim>\<open>None\<close> lets \<^verbatim>\<open>random.Random\<close> seed itself from
  the system; an integer seed fixes the generator's state.
\<close>

record settings =
  output_path :: string
  characters :: int
  paragraphs :: int
  max_line_length :: int
  include_title :: bool
  title_characters :: int
  seed :: "int option"

text \<open>
  \<^verbatim>\<open>[gen_paragraph(n, rng) for n in distribution]\<close>: the calls run from left to right on
  the one generator.
\<close>

fun gen_paragraphs :: "int list \<Rightarrow> rng \<Rightarrow> string list \<times> rng" where
  "gen_paragraphs [] r = ([], r)"
| "gen_paragraphs (n # ns) r =
     (case gen_paragraph n r of
        (p, r1) \<Rightarrow> (case gen_paragraphs ns r1 of (ps, r2) \<Rightarrow> (p # ps, r2)))"

text \<open>
  The text \<^verbatim>\<open>main\<close> generates, from the settings to \<^verbatim>\<open>title_text\<close> and
  \<^verbatim>\<open>paragraphs_text\<close>. \<open>seeded s\<close> is the state of \<^verbatim>\<open>random.Random(s)\<close> for an integer
  \<open>s\<close>, and \<open>sys\<close> the state of a generator that seeded itself.
\<close>

definition main_texts :: "(int \<Rightarrow> rng) \<Rightarrow> rng \<Rightarrow> settings \<Rightarrow> string \<times> string list" where
  "main_texts seeded sys cfg =
     (let r0 = (case seed cfg of Some s \<Rightarrow> seeded s | None \<Rightarrow> sys);
          total_chars = effective_total (characters cfg) (paragraphs cfg);
          distribution = distribute_chars total_chars (paragraphs cfg)
      in case gen_paragraphs distribution r0 of
           (paragraphs_text, r1) \<Rightarrow>
             (if include_title cfg then fst (gen_title (title_characters cfg) r1) else '''',
              paragraphs_text))"

text \<open>The document \<^verbatim>\<open>main\<close> writes to \<^verbatim>\<open>output_path\<close>.\<close>

definition main_document :: "(int \<Rightarrow> rng) \<Rightarrow> rng \<Rightarrow> settings \<Rightarrow> error + string" where
  "main_document seeded sys cfg =
     (case main_texts seeded sys cfg of
        (title_text, paragraphs_text) \<Rightarrow>
          render_markdown title_text paragraphs_text (max_line_length cfg))"

section \<open>Notions of the specification\<close>

text \<open>
  A word of a generated paragraph: a word of the pool, as it is or capitalised, with or
  without a full stop after it.
\<close>

definition pool_form :: "string \<Rightarrow> bool" where
  "pool_form x =
     (\<exists>w \<in> set LOREM_WORDS.
        x = w \<or> x = capitalize w \<or> x = w @ ''.'' \<or> x = capitalize w @ ''.'')"

text \<open>
  A document ends with a blank line when its last line is empty, that is when the text
  ends with a line feed: the part after the last line feed, which \<^verbatim>\<open>render_markdown\<close>
  joins as \<^verbatim>\<open>""\<close>, is empty.
\<close>

definition ends_with_blank_line :: "string \<Rightarrow> bool" where
  "ends_with_blank_line doc = (doc \<noteq> [] \<and> last doc = CHR 0x0A)"

text \<open>The lines of a text, as \<^verbatim>\<open>text.split("\n")\<close> gives them.\<close>

fun split_lines :: "string \<Rightarrow> string list" where
  "split_lines [] = [[]]"
| "split_lines (c # cs) =
     (if c = CHR 0x0A then [] # split_lines cs
      else (case split_lines cs of [] \<Rightarrow> [[c]] | l # ls \<Rightarrow> (c # l) # ls))"

text \<open>
  The words of a text: its maximal runs of characters that are not whitespace for
  \<^verbatim>\<open>textwrap\<close>.
\<close>

function words_of :: "string \<Rightarrow> string list" where
  "words_of [] = []"
| "words_of (c # cs) =
     (if tw_whitespace c then words_of cs
      else (c # takeWhile (\<lambda>d. \<not> tw_whitespace d) cs) #
           words_of (dropWhile (\<lambda>d. \<not> tw_whitespace d) cs))"
  by pat_completeness auto
termination
  by (relation "measure length") (auto simp add: length_dropWhile_le less_Suc_eq_le)

text \<open>
  Chunks of the two kinds \<^verbatim>\<open>_wrap_chunks\<close> expects, whitespace and words, and chunk lists
  in which no two words are neighbours.
\<close>

definition is_blank :: "string \<Rightarrow> bool" where
  "is_blank c = (c \<noteq> [] \<and> list_all tw_whitespace c)"

definition is_word :: "string \<Rightarrow> bool" where
  "is_word c = (c \<noteq> [] \<and> list_all (\<lambda>x. \<not> tw_whitespace x) c)"

fun separated :: "string list \<Rightarrow> bool" where
  "separated [] = True"
| "separated [a] = (is_blank a \<or> is_word a)"
| "separated (a # b # cs) =
     ((is_blank a \<or> (is_word a \<and> is_blank b)) \<and> separated (b # cs))"

text \<open>
  Sample inputs for the worked examples: a generator state, a seeding function, and the
  settings of the specification's golden-file example.
\<close>

definition example_rng :: rng where
  "example_rng = \<lparr>draws = (\<lambda>i. 37 * i + 11), pos = 0\<rparr>"

definition example_seeded :: "int \<Rightarrow> rng" where
  "example_seeded s = \<lparr>draws = (\<lambda>i. 37 * i + nat s), pos = 0\<rparr>"

definition example_settings :: "string \<Rightarrow> settings" where
  "example_settings path =
     \<lparr>output_path = path, characters = 100, paragraphs = 2, max_line_length = 40,
      include_title = True, title_characters = 20, seed = Some 42\<rparr>"

section \<open>Termination of the loops\<close>

lemma length_join_snoc:
  "length (join sep (ws @ [x])) =
     (if ws = [] then length x else length (join sep ws) + length sep + length x)"
  by (induction sep ws rule: join.induct) auto

lemma length_capitalize: "length (capitalize w) = length w"
  by (cases w) auto

lemma pool_lower: "w \<in> set LOREM_WORDS \<Longrightarrow> w \<noteq> [] \<and> set w \<subseteq> set lower_letters"
  by (simp add: LOREM_WORDS_def lower_letters_def, elim disjE; simp)

lemma choice_pool: "choice LOREM_WORDS r = (w, r') \<Longrightarrow> w \<in> set LOREM_WORDS"
proof -
  assume a: "choice LOREM_WORDS r = (w, r')"
  have "length LOREM_WORDS = 69" by (simp add: LOREM_WORDS_def)
  then have "draws r (pos r) mod length LOREM_WORDS < length LOREM_WORDS" by simp
  then show ?thesis using a by (auto simp add: choice_def randbelow_def)
qed

lemma join_grows:
  assumes "x \<noteq> []"
  shows "length (join '' '' ws) < length (join '' '' (ws @ [x]))"
  using assms by (simp add: length_join_snoc)

lemma pool_choice_grows:
  assumes "(x, y) = choice LOREM_WORDS r"
  shows "length (join '' '' ws) < length (join '' '' (ws @ [x]))"
    and "length (join '' '' ws) < length (join '' '' (ws @ [capitalize x]))"
    and "length (join '' '' ws) < length (join '' '' (ws @ [x @ ''.'']))"
    and "length (join '' '' ws) < length (join '' '' (ws @ [capitalize x @ ''.'']))"
proof -
  have "x \<noteq> []" using choice_pool[of r x y] pool_lower[of x] assms by simp
  moreover from this have "capitalize x \<noteq> []" by (cases x) auto
  ultimately show "length (join '' '' ws) < length (join '' '' (ws @ [x]))"
    and "length (join '' '' ws) < length (join '' '' (ws @ [capitalize x]))"
    and "length (join '' '' ws) < length (join '' '' (ws @ [x @ ''.'']))"
    and "length (join '' '' ws) < length (join '' '' (ws @ [capitalize x @ ''.'']))"
    by (simp_all add: join_grows)
qed

termination gen_title_loop
proof (relation "measure (\<lambda>(char_count, words, r). nat (char_count - int (length (join '' '' words))))",
       goal_cases)
  case 1
  show ?case by simp
next
  case (2 char_count words r x y)
  then show ?case
    using pool_choice_grows(1,2)[of x y r words] by auto
qed

termination gen_paragraph_loop
proof (relation "measure (\<lambda>(target_chars, words, char_len, sentence_len, words_in_sentence, r).
          nat (target_chars - int (length (join '' '' words))) +
          (if char_len < target_chars then 1 else 0))", goal_cases)
  case 1
  show ?case by simp
next
  case (2 target_chars words char_len sentence_len words_in_sentence r x y xa xb xc xd xe ya)
  have "length (join '' '' words) < length (join '' '' xb)"
    using 2 pool_choice_grows(1,2)[of x y r words] by auto
  moreover have "length (join '' '' xb) < length (join '' '' (butlast xb @ [last xb @ ''.'']))"
    using 2 by (simp add: length_join_snoc)
  ultimately show ?case using 2 by auto
next
  case (3 target_chars words char_len sentence_len words_in_sentence r x y xa xb xc xd)
  have "length (join '' '' words) < length (join '' '' xb)"
    using 3 pool_choice_grows(1,2)[of x y r words] by auto
  then show ?case using 3 by auto
qed

lemma word_chunk_rest: "length (snd (word_chunk prev acc cs)) \<le> length cs"
  by (induction prev acc cs rule: word_chunk.induct) auto

lemma emdash_len_ge: "emdash_len s = Some k \<Longrightarrow> 2 \<le> k \<and> k < length s"
proof -
  assume a: "emdash_len s = Some k"
  then have k: "k = length (takeWhile (\<lambda>c. c = CHR ''-'') s)" "2 \<le> k" "drop k s \<noteq> []"
    by (auto simp add: emdash_len_def Let_def split: if_splits list.splits)
  then show ?thesis by simp
qed

termination split_from
proof (relation "measure (\<lambda>(prev, text). length text)", goal_cases)
  case 1
  show ?case by simp
next
  case (2 prev c cs run)
  then show ?case by (simp add: length_dropWhile_le less_Suc_eq_le)
next
  case (3 prev c cs chunk rest)
  then have "rest = snd (word_chunk (c # prev) [c] cs)" by (metis snd_conv)
  then show ?case using word_chunk_rest[of "c # prev" "[c]" cs] by (simp add: less_Suc_eq_le)
next
  case (4 prev c cs k)
  then have "2 \<le> k" using emdash_len_ge[of "c # cs" k] by (auto split: if_splits)
  then show ?case by (cases k) auto
qed

section \<open>One round of the wrapping loop\<close>

lemma fill_line_split:
  "\<exists>taken rest. chunks = taken @ rest \<and>
     fill_line width cl n chunks = (cl @ taken, n + int (length (concat taken)), rest) \<and>
     (n \<le> width \<longrightarrow> n + int (length (concat taken)) \<le> width) \<and>
     (rest \<noteq> [] \<longrightarrow> width < n + int (length (concat taken)) + int (length (hd rest)))"
proof (induction chunks arbitrary: cl n)
  case Nil
  then show ?case by simp
next
  case (Cons c chunks)
  show ?case
  proof (cases "n + int (length c) \<le> width")
    case True
    from Cons.IH[of "cl @ [c]" "n + int (length c)"]
    obtain taken rest where t: "chunks = taken @ rest"
      "fill_line width (cl @ [c]) (n + int (length c)) chunks =
         ((cl @ [c]) @ taken, n + int (length c) + int (length (concat taken)), rest)"
      "n + int (length c) + int (length (concat taken)) \<le> width"
      "rest \<noteq> [] \<longrightarrow>
         width < n + int (length c) + int (length (concat taken)) + int (length (hd rest))"
      using True by blast
    show ?thesis
      apply (rule exI[of _ "c # taken"], rule exI[of _ rest])
      using t True by auto
  next
    case False
    show ?thesis
      apply (rule exI[of _ "[]"], rule exI[of _ "c # chunks"])
      using False by auto
  qed
qed

lemma takeWhile_short: "x \<in> set xs \<Longrightarrow> \<not> P x \<Longrightarrow> length (takeWhile P xs) < length xs"
  by (induction xs) auto

lemma rfind_bounds: "- 1 \<le> rfind c s \<and> rfind c s < int (length s)"
proof (cases "c \<in> set s")
  case True
  then have "length (takeWhile (\<lambda>x. x \<noteq> c) (rev s)) < length (rev s)"
    using takeWhile_short[of c "rev s" "\<lambda>x. x \<noteq> c"] by simp
  then show ?thesis using True by (auto simp add: rfind_def)
next
  case False
  then show ?thesis by (simp add: rfind_def)
qed

lemma handle_long_word_cut:
  assumes "0 < width" "0 \<le> n" "n \<le> width" "width < int (length c)"
  shows "\<exists>e. handle_long_word (c # rest) cl n width = (cl @ [take e c], drop e c # rest) \<and>
             n + int e \<le> width \<and> (n = 0 \<longrightarrow> 0 < e)"
proof -
  define sl where "sl = width - n"
  define hy where "hy = rfind (CHR ''-'') (py_take sl c)"
  define en where "en = (if sl < int (length c) \<and> 0 < hy \<and>
                    (\<exists>x \<in> set (py_take hy c). x \<noteq> CHR ''-'') then hy + 1 else sl)"
  have sl: "0 \<le> sl" "sl \<le> width" using assms by (simp_all add: sl_def)
  have "hy < int (length (py_take sl c))" using rfind_bounds[of "CHR ''-''" "py_take sl c"]
    by (simp add: hy_def)
  then have hy: "hy < sl" using sl by (simp add: py_take_def)
  have en: "0 \<le> en" "en \<le> sl" "n = 0 \<longrightarrow> 0 < en"
    using sl hy assms by (auto simp add: en_def sl_def)
  have "\<not> width < 1" using assms by simp
  then have "handle_long_word (c # rest) cl n width = (cl @ [py_take en c], py_drop en c # rest)"
    unfolding handle_long_word.simps Let_def en_def hy_def sl_def by (simp only: if_False)
  then have "handle_long_word (c # rest) cl n width = (cl @ [take (nat en) c], drop (nat en) c # rest)"
    using en by (simp add: py_take_def py_drop_def)
  moreover have "n + int (nat en) \<le> width" "n = 0 \<longrightarrow> 0 < nat en"
    using en sl by (auto simp add: sl_def)
  ultimately show ?thesis by blast
qed

lemma strip_empty_iff: "strip s = [] \<longleftrightarrow> (\<forall>c \<in> set s. py_isspace c)"
proof -
  have "dropWhile py_isspace (rev s) = [] \<longleftrightarrow> (\<forall>c \<in> set s. py_isspace c)"
    by (simp add: dropWhile_eq_Nil_conv)
  moreover have "strip s = [] \<longleftrightarrow> (\<forall>c \<in> set (rstrip s). py_isspace c)"
    by (simp add: strip_def dropWhile_eq_Nil_conv)
  moreover have "set (rstrip s) \<subseteq> set s"
    unfolding rstrip_def using set_dropWhileD[of _ py_isspace "rev s"] by auto
  moreover have "\<not> (\<forall>c \<in> set s. py_isspace c) \<Longrightarrow> \<not> (\<forall>c \<in> set (rstrip s). py_isspace c)"
  proof -
    assume "\<not> (\<forall>c \<in> set s. py_isspace c)"
    then have "dropWhile py_isspace (rev s) \<noteq> []" by (simp add: dropWhile_eq_Nil_conv)
    then have "\<not> py_isspace (hd (dropWhile py_isspace (rev s)))" by (rule hd_dropWhile)
    moreover have "hd (dropWhile py_isspace (rev s)) \<in> set (rstrip s)"
      using \<open>dropWhile py_isspace (rev s) \<noteq> []\<close> by (simp add: rstrip_def)
    ultimately show ?thesis by blast
  qed
  ultimately show ?thesis by blast
qed

lemma fill_line_start:
  assumes "0 \<le> width"
  shows "\<exists>taken rest. chunks = taken @ rest \<and>
     fill_line width [] 0 chunks = (taken, int (length (concat taken)), rest) \<and>
     int (length (concat taken)) \<le> width \<and>
     (rest \<noteq> [] \<longrightarrow> width < int (length (concat taken)) + int (length (hd rest)))"
  using fill_line_split[of chunks width "[]" 0] assms by simp

text \<open>One round of the outer loop, case by case.\<close>

lemma wrap_step_cases:
  assumes "0 < width"
  obtains (fit) d taken rest where
      "chunks = d @ taken @ rest"
      "d = [] \<or> (started \<and> (\<exists>c. d = [c] \<and> strip c = []))"
      "int (length (concat taken)) \<le> width"
      "taken = [] \<longrightarrow> rest = []"
      "wrap_step width started chunks =
         (if taken \<noteq> [] \<and> strip (last taken) = [] then butlast taken else taken, rest)"
  | (long) d taken c rest e where
      "chunks = d @ taken @ c # rest"
      "d = [] \<or> (started \<and> (\<exists>c. d = [c] \<and> strip c = []))"
      "width < int (length c)"
      "int (length (concat taken)) + int e \<le> width"
      "taken = [] \<longrightarrow> 0 < e"
      "wrap_step width started chunks =
         (if strip (take e c) = [] then taken else taken @ [take e c], drop e c # rest)"
proof -
  define chunks1 where "chunks1 = (case chunks of [] \<Rightarrow> []
                     | c # rest \<Rightarrow> if strip c = [] \<and> started then rest else chunks)"
  have "\<exists>d. chunks = d @ chunks1 \<and> (d = [] \<or> (started \<and> (\<exists>c. d = [c] \<and> strip c = [])))"
  proof (cases chunks)
    case Nil
    then show ?thesis by (simp add: chunks1_def)
  next
    case (Cons c rest)
    show ?thesis
    proof (cases "strip c = [] \<and> started")
      case True
      then have "chunks = [c] @ chunks1" using Cons by (simp add: chunks1_def)
      then show ?thesis using True by blast
    next
      case False
      then have "chunks = [] @ chunks1" using Cons by (auto simp add: chunks1_def)
      then show ?thesis by blast
    qed
  qed
  then obtain d where d: "chunks = d @ chunks1"
    "d = [] \<or> (started \<and> (\<exists>c. d = [c] \<and> strip c = []))" by blast
  obtain taken rest where t: "chunks1 = taken @ rest"
    "fill_line width [] 0 chunks1 = (taken, int (length (concat taken)), rest)"
    "int (length (concat taken)) \<le> width"
    "rest \<noteq> [] \<longrightarrow> width < int (length (concat taken)) + int (length (hd rest))"
    using fill_line_start[of width chunks1] assms by auto
  have ws: "wrap_step width started chunks =
     (case fill_line width [] 0 chunks1 of
           (cur_line, cur_len, chunks2) \<Rightarrow>
             (case (case chunks2 of
                      [] \<Rightarrow> (cur_line, chunks2)
                    | c # _ \<Rightarrow>
                        if width < int (length c)
                        then handle_long_word chunks2 cur_line cur_len width
                        else (cur_line, chunks2)) of
                (cur_line1, chunks3) \<Rightarrow>
                  (if cur_line1 \<noteq> [] \<and> strip (last cur_line1) = [] then butlast cur_line1
                   else cur_line1,
                   chunks3)))"
    by (simp only: wrap_step_def Let_def chunks1_def)
  show ?thesis
  proof (cases "\<exists>c rest'. rest = c # rest' \<and> width < int (length c)")
    case True
    then obtain c rest' where c: "rest = c # rest'" "width < int (length c)" by blast
    have n0: "(0::int) \<le> int (length (concat taken))" by simp
    obtain e where e: "handle_long_word (c # rest') taken (int (length (concat taken))) width =
        (taken @ [take e c], drop e c # rest')"
      "int (length (concat taken)) + int e \<le> width" "int (length (concat taken)) = 0 \<longrightarrow> 0 < e"
      using handle_long_word_cut[OF assms n0 t(3) c(2), of rest' taken] by blast
    have f6: "wrap_step width started chunks =
         (if strip (take e c) = [] then taken else taken @ [take e c], drop e c # rest')"
      using c(2) by (simp add: ws t(2) c(1) e(1) del: handle_long_word.simps)
    have f1: "chunks = d @ taken @ c # rest'" using d(1) t(1) c(1) by simp
    have f5: "taken = [] \<longrightarrow> 0 < e" using e(3) by simp
    show ?thesis by (rule long[OF f1 d(2) c(2) e(2) f5 f6])
  next
    case False
    have f5: "wrap_step width started chunks =
         (if taken \<noteq> [] \<and> strip (last taken) = [] then butlast taken else taken, rest)"
    proof (cases rest)
      case Nil
      then show ?thesis by (simp add: ws t(2))
    next
      case (Cons c rest')
      then have "\<not> width < int (length c)" using False by simp
      then show ?thesis using Cons by (simp add: ws t(2))
    qed
    have f4: "taken = [] \<longrightarrow> rest = []" using False t(4) by (cases rest) auto
    have f1: "chunks = d @ taken @ rest" using d(1) t(1) by simp
    show ?thesis by (rule fit[OF f1 d(2) t(3) f4 f5])
  qed
qed

lemma wrap_step_decreases:
  assumes "0 < width" "chunks \<noteq> []"
  shows "length (concat (snd (wrap_step width started chunks))) +
           length (snd (wrap_step width started chunks))
         < length (concat chunks) + length chunks"
  using assms(1)
proof (cases rule: wrap_step_cases[where chunks=chunks and started=started, consumes 1, case_names fit long])
  case (fit d taken rest)
  then show ?thesis using assms(2) by (cases "taken = []") auto
next
  case (long d taken c rest e)
  have "width < int (length c)" using long by simp
  then have "taken = [] \<longrightarrow> length (drop e c) < length c" using long(5) assms(1) by auto
  moreover have "taken \<noteq> [] \<longrightarrow> 1 \<le> length taken" by (cases taken) simp_all
  moreover have "length (drop e c) \<le> length c" by simp
  moreover have "length (concat (snd (wrap_step width started chunks))) +
           length (snd (wrap_step width started chunks)) =
      length (drop e c) + length (concat rest) + length rest + 1" using long(6) by simp
  moreover have "length (concat chunks) + length chunks =
      length (concat d) + length (concat taken) + length c + length (concat rest) +
      length d + length taken + length rest + 1" using long(1) by simp
  ultimately show ?thesis by linarith
qed

termination wrap_loop
proof (relation "measure (\<lambda>(width, lines, chunks). length (concat chunks) + length chunks)",
       goal_cases)
  case 1
  show ?case by simp
next
  case (2 width lines chunks cur_line chunks')
  then have "chunks' = snd (wrap_step width (lines \<noteq> []) chunks)" by (metis snd_conv)
  then show ?case using 2 wrap_step_decreases[of width chunks "lines \<noteq> []"] by simp
qed

declare gen_title_loop.simps [simp del]
declare gen_paragraph_loop.simps [simp del]
declare wrap_loop.simps [simp del]
declare handle_long_word.simps [simp del]

lemma wrap_step_line_length:
  assumes "0 < width"
  shows "int (length (concat (fst (wrap_step width started chunks)))) \<le> width"
using assms
proof (cases rule: wrap_step_cases[where chunks=chunks and started=started, consumes 1, case_names fit long])
  case (fit d taken rest)
  have "length (concat (butlast taken)) \<le> length (concat taken)"
    by (cases taken rule: rev_cases) auto
  then show ?thesis using fit(3,5) by auto
next
  case (long d taken c rest e)
  have "length (take e c) \<le> e" by simp
  then show ?thesis using long(4,6) by auto
qed

lemma wrap_step_pieces:
  assumes "0 < width"
  shows "set (concat (fst (wrap_step width started chunks))) \<subseteq> set (concat chunks)"
    and "set (concat (snd (wrap_step width started chunks))) \<subseteq> set (concat chunks)"
proof -
  have "set (concat (fst (wrap_step width started chunks))) \<subseteq> set (concat chunks) \<and>
        set (concat (snd (wrap_step width started chunks))) \<subseteq> set (concat chunks)"
  using assms
proof (cases rule: wrap_step_cases[where chunks=chunks and started=started, consumes 1, case_names fit long])
    case (fit d taken rest)
    have "set (concat (butlast taken)) \<subseteq> set (concat taken)"
      by (cases taken rule: rev_cases) auto
    then show ?thesis using fit(1,5) by auto
  next
    case (long d taken c rest e)
    have "set (take e c) \<subseteq> set c" "set (drop e c) \<subseteq> set c"
      by (simp_all add: set_take_subset set_drop_subset)
    then show ?thesis using long(1,6) by auto
  qed
  then show "set (concat (fst (wrap_step width started chunks))) \<subseteq> set (concat chunks)"
    and "set (concat (snd (wrap_step width started chunks))) \<subseteq> set (concat chunks)"
    by simp_all
qed

lemma strip_Nil: "strip [] = []"
  by (simp add: strip_def rstrip_def)

lemma wrap_step_nonempty:
  assumes "0 < width" "[] \<notin> set chunks"
  shows "[] \<notin> set (fst (wrap_step width started chunks))"
    and "[] \<notin> set (snd (wrap_step width started chunks))"
proof -
  have "[] \<notin> set (fst (wrap_step width started chunks)) \<and>
        [] \<notin> set (snd (wrap_step width started chunks))"
  using assms(1)
proof (cases rule: wrap_step_cases[where chunks=chunks and started=started, consumes 1, case_names fit long])
    case (fit d taken rest)
    have "set (butlast taken) \<subseteq> set taken" by (cases taken rule: rev_cases) auto
    then show ?thesis using fit(1,5) assms(2) by auto
  next
    case (long d taken c rest e)
    have "int e \<le> width" using long(4) by simp
    then have "drop e c \<noteq> []" using long(3) by auto
    moreover have "strip (take e c) \<noteq> [] \<longrightarrow> take e c \<noteq> []" by (metis strip_Nil)
    ultimately show ?thesis using long(1,6) assms(2) by auto
  qed
  then show "[] \<notin> set (fst (wrap_step width started chunks))"
    and "[] \<notin> set (snd (wrap_step width started chunks))" by simp_all
qed

lemma filter_visible_Nil: "strip s = [] \<Longrightarrow> filter (\<lambda>c. \<not> py_isspace c) s = []"
  by (simp add: strip_empty_iff filter_empty_conv)

lemma wrap_step_visible:
  assumes "0 < width"
  shows "filter (\<lambda>c. \<not> py_isspace c) (concat (fst (wrap_step width started chunks))) @
         filter (\<lambda>c. \<not> py_isspace c) (concat (snd (wrap_step width started chunks))) =
         filter (\<lambda>c. \<not> py_isspace c) (concat chunks)"
using assms
proof (cases rule: wrap_step_cases[where chunks=chunks and started=started, consumes 1, case_names fit long])
  case (fit d taken rest)
  have d: "filter (\<lambda>c. \<not> py_isspace c) (concat d) = []"
    using fit(2) filter_visible_Nil by auto
  have "taken \<noteq> [] \<and> strip (last taken) = [] \<longrightarrow>
        filter (\<lambda>c. \<not> py_isspace c) (concat (butlast taken)) =
        filter (\<lambda>c. \<not> py_isspace c) (concat taken)"
    using filter_visible_Nil by (cases taken rule: rev_cases) auto
  then show ?thesis using fit(1,5) d by auto
next
  case (long d taken c rest e)
  have d: "filter (\<lambda>c. \<not> py_isspace c) (concat d) = []"
    using long(2) filter_visible_Nil by auto
  have "filter (\<lambda>c. \<not> py_isspace c) (take e c) @ filter (\<lambda>c. \<not> py_isspace c) (drop e c) =
        filter (\<lambda>c. \<not> py_isspace c) c"
    by (metis append_take_drop_id filter_append)
  then show ?thesis using long(1,6) d filter_visible_Nil[of "take e c"] by auto
qed

section \<open>Budget distribution\<close>

lemma sum_list_upto: "sum_list (map f [i..j]) = (\<Sum>k\<in>{i..j}. f k)"
  by (simp add: sum_list_distinct_conv_sum_set)

lemma sum_indicator:
  assumes "0 \<le> r" "r \<le> p"
  shows "(\<Sum>k\<in>{0..p - 1}. (if k < r then 1 else 0::int)) = r"
proof -
  have "{0..p - 1} \<inter> {k. k < r} = {0..r - 1}" using assms by auto
  then show ?thesis using assms by (simp add: sum.If_cases)
qed

lemma distribute_sum:
  assumes "0 < p"
  shows "sum_list (distribute_chars t p) = t"
proof -
  have r: "0 \<le> t mod p" "t mod p \<le> p" using assms by (simp_all add: less_imp_le)
  have "sum_list (distribute_chars t p) = (\<Sum>k\<in>{0..p - 1}. t div p + (if k < t mod p then 1 else 0))"
    using assms by (simp add: distribute_chars_def sum_list_upto Let_def)
  also have "\<dots> = p * (t div p) + t mod p"
    using assms by (simp add: sum.distrib sum_indicator[OF r])
  finally show ?thesis by simp
qed

lemma distribute_length: "0 < p \<Longrightarrow> length (distribute_chars t p) = nat p"
  by (simp add: distribute_chars_def Let_def)

lemma distribute_nth: "0 < p \<Longrightarrow> i < nat p \<Longrightarrow>
  distribute_chars t p ! i = t div p + (if int i < t mod p then 1 else 0)"
  by (simp add: distribute_chars_def Let_def)

lemma distribute_set:
  "0 < p \<Longrightarrow> x \<in> set (distribute_chars t p) \<Longrightarrow> x = t div p \<or> x = t div p + 1"
  by (auto simp add: distribute_chars_def Let_def)

lemma distribute_lower:
  assumes "0 < p" "b * p \<le> t" "x \<in> set (distribute_chars t p)"
  shows "b \<le> x"
proof -
  have "b * p div p \<le> t div p" using assms(1,2) by (rule_tac zdiv_mono1) simp_all
  then have "b \<le> t div p" using assms(1) by simp
  then show ?thesis using distribute_set[OF assms(1,3)] by auto
qed

lemma effective_total_lower: "p * 20 \<le> effective_total t p"
  by (simp add: effective_total_def)

text \<open>
  C1. For \<open>total_chars \<ge> 0\<close> and \<open>paragraphs > 0\<close>, \<open>distribute_chars\<close> returns
  \<open>paragraphs\<close> integers, none negative, whose sum is \<open>total_chars\<close>, any two of them at
  most 1 apart, and the entry at index \<open>i\<close> is the quotient, plus 1 exactly when \<open>i\<close> is
  below the remainder.
\<close>

theorem distribute_chars_even_split:
  assumes "0 \<le> total_chars" "0 < n"
  shows "length (distribute_chars total_chars n) = nat n \<and>
         (\<forall>x \<in> set (distribute_chars total_chars n). 0 \<le> x) \<and>
         sum_list (distribute_chars total_chars n) = total_chars \<and>
         (\<forall>x \<in> set (distribute_chars total_chars n).
            \<forall>y \<in> set (distribute_chars total_chars n). \<bar>x - y\<bar> \<le> 1) \<and>
         (\<forall>i < nat n. distribute_chars total_chars n ! i =
            total_chars div n + (if int i < total_chars mod n then 1 else 0))"
proof -
  have "0 * n \<le> total_chars" using assms(1) by simp
  then have nonneg: "\<forall>x \<in> set (distribute_chars total_chars n). 0 \<le> x"
    using distribute_lower[OF assms(2)] by blast
  have close: "\<forall>x \<in> set (distribute_chars total_chars n).
            \<forall>y \<in> set (distribute_chars total_chars n). \<bar>x - y\<bar> \<le> 1"
  proof (intro ballI)
    fix x y
    assume "x \<in> set (distribute_chars total_chars n)" "y \<in> set (distribute_chars total_chars n)"
    then have "x = total_chars div n \<or> x = total_chars div n + 1"
      "y = total_chars div n \<or> y = total_chars div n + 1"
      using distribute_set[OF assms(2)] by blast+
    then show "\<bar>x - y\<bar> \<le> 1" by auto
  qed
  show ?thesis
    using nonneg close distribute_length[OF assms(2)] distribute_sum[OF assms(2)]
      distribute_nth[OF assms(2)] by blast
qed

theorem distribute_chars_even_split_witness:
  "(0::int) \<le> 10 \<and> (0::int) < 3 \<and> distribute_chars 10 3 = [4, 3, 3] \<and>
   length (distribute_chars 10 3) = nat 3 \<and> sum_list (distribute_chars 10 3) = 10 \<and>
   distribute_chars 10 3 ! 0 = 10 div 3 + 1"
proof -
  have h1: "(0::int) \<le> 10" and h2: "(0::int) < 3" by simp_all
  have v: "distribute_chars 10 3 = [4, 3, 3]" by (simp add: distribute_chars_def upto.simps)
  have "\<forall>i < nat 3. distribute_chars 10 3 ! i =
            10 div 3 + (if int i < 10 mod 3 then 1 else 0)"
    using distribute_chars_even_split[OF h1 h2] by blast
  then have "distribute_chars 10 3 ! 0 = 10 div 3 + (if int 0 < 10 mod 3 then 1 else 0)"
    by simp
  then have "distribute_chars 10 3 ! 0 = 10 div 3 + 1" by simp
  then show ?thesis using h1 h2 v distribute_chars_even_split[OF h1 h2] by blast
qed

text \<open>C9. With no paragraphs, \<open>distribute_chars\<close> returns the empty list for every integer.\<close>

theorem distribute_chars_no_paragraphs: "distribute_chars x 0 = []"
  by (simp add: distribute_chars_def)

text \<open>
  C6. When \<open>total_chars\<close> is below \<open>paragraphs * 20\<close>, \<^verbatim>\<open>main\<close> raises it to
  \<open>max total_chars (paragraphs * 20)\<close> before it distributes it; every budget that is then
  distributed is at least 20; and 5 paragraphs with 10 characters give a total of 100.
\<close>

theorem minimum_budget_fallback:
  "(total_chars < n * 20 \<longrightarrow>
      effective_total total_chars n = max total_chars (n * 20)) \<and>
   (\<forall>b \<in> set (distribute_chars (effective_total total_chars n) n). 20 \<le> b) \<and>
   effective_total 10 5 = 100"
proof -
  have "\<forall>b \<in> set (distribute_chars (effective_total total_chars n) n). 20 \<le> b"
  proof (cases "0 < n")
    case True
    have "20 * n \<le> effective_total total_chars n"
      using effective_total_lower[of n total_chars] by (simp add: mult.commute)
    then show ?thesis using distribute_lower[OF True] by blast
  next
    case False
    then show ?thesis by (simp add: distribute_chars_def)
  qed
  then show ?thesis by (simp add: effective_total_def)
qed

theorem minimum_budget_fallback_witness:
  "(10::int) < 5 * 20 \<and> effective_total 10 5 = max 10 (5 * 20) \<and>
   distribute_chars (effective_total 10 5) 5 = [20, 20, 20, 20, 20]"
proof -
  have h: "(10::int) < 5 * 20" by simp
  have v: "distribute_chars (effective_total 10 5) 5 = [20, 20, 20, 20, 20]"
    by (simp add: distribute_chars_def effective_total_def upto.simps)
  show ?thesis using h v minimum_budget_fallback[of 10 5] by blast
qed

section \<open>Joining and stripping\<close>

lemma join_snoc: "ws \<noteq> [] \<Longrightarrow> join sep (ws @ [x]) = join sep ws @ sep @ x"
  by (induction sep ws rule: join.induct) auto

lemma set_join: "set (join sep ws) \<subseteq> set sep \<union> \<Union> (set ` set ws)"
  by (induction sep ws rule: join.induct) auto

lemma hd_join: "ws \<noteq> [] \<Longrightarrow> hd ws \<noteq> [] \<Longrightarrow> hd (join sep ws) = hd (hd ws)"
  by (induction sep ws rule: join.induct) auto

lemma join_Nil_iff: "ws \<noteq> [] \<Longrightarrow> last ws \<noteq> [] \<Longrightarrow> join sep ws \<noteq> []"
  by (induction sep ws rule: join.induct) auto

lemma last_join: "ws \<noteq> [] \<Longrightarrow> last ws \<noteq> [] \<Longrightarrow> last (join sep ws) = last (last ws)"
proof (induction sep ws rule: join.induct)
  case (3 sep x y ys)
  then have "join sep (y # ys) \<noteq> []" using join_Nil_iff[of "y # ys" sep] by simp
  then show ?case using 3 by simp
qed simp_all

lemma set_rstrip: "set (rstrip s) \<subseteq> set s"
  unfolding rstrip_def using set_dropWhileD[of _ py_isspace "rev s"] by auto

lemma set_strip: "set (strip s) \<subseteq> set s"
  unfolding strip_def using set_dropWhileD[of _ py_isspace "rstrip s"] set_rstrip[of s] by auto

lemma length_rstrip: "length (rstrip s) \<le> length s"
  unfolding rstrip_def using length_dropWhile_le[of py_isspace "rev s"] by simp

lemma length_strip: "length (strip s) \<le> length s"
  unfolding strip_def using length_dropWhile_le[of py_isspace "rstrip s"] length_rstrip[of s]
  by simp

lemma rstrip_last: "rstrip s \<noteq> [] \<Longrightarrow> \<not> py_isspace (last (rstrip s))"
proof -
  assume "rstrip s \<noteq> []"
  then have n: "dropWhile py_isspace (rev s) \<noteq> []" by (simp add: rstrip_def)
  then have "\<not> py_isspace (hd (dropWhile py_isspace (rev s)))" by (rule hd_dropWhile)
  then show ?thesis using n by (simp add: rstrip_def last_rev)
qed

lemma last_dropWhile: "dropWhile P xs \<noteq> [] \<Longrightarrow> last (dropWhile P xs) = last xs"
  by (induction xs) (auto split: if_splits)

lemma strip_ends:
  assumes "strip s \<noteq> []"
  shows "\<not> py_isspace (hd (strip s)) \<and> \<not> py_isspace (last (strip s))"
proof -
  have n: "dropWhile py_isspace (rstrip s) \<noteq> []" using assms by (simp add: strip_def)
  then have h: "\<not> py_isspace (hd (strip s))" unfolding strip_def by (rule hd_dropWhile)
  have "rstrip s \<noteq> []" using n by auto
  then have "\<not> py_isspace (last (rstrip s))" by (rule rstrip_last)
  then have "\<not> py_isspace (last (strip s))" using last_dropWhile[OF n] by (simp add: strip_def)
  then show ?thesis using h by simp
qed

lemma strip_id:
  assumes "s \<noteq> []" "\<not> py_isspace (hd s)" "\<not> py_isspace (last s)"
  shows "strip s = s"
proof -
  have "dropWhile py_isspace (rev s) = rev s"
    using assms(1,3) by (cases "rev s") (auto simp add: last_rev[symmetric] hd_rev)
  then have "rstrip s = s" by (simp add: rstrip_def)
  moreover have "dropWhile py_isspace s = s" using assms(1,2) by (cases s) auto
  ultimately show ?thesis by (simp add: strip_def)
qed

lemma letter_not_space:
  "c \<in> set lower_letters \<union> set upper_letters \<union> {CHR ''.''} \<Longrightarrow> \<not> py_isspace c"
  unfolding lower_letters_def upper_letters_def py_isspace_def Let_def
  by (elim UnE; simp; elim disjE; simp)

lemma to_upper_letter: "c \<in> set lower_letters \<Longrightarrow> to_upper c \<in> set upper_letters"
  unfolding lower_letters_def upper_letters_def to_upper_def
  by (simp; elim disjE; simp)

lemma to_lower_letter: "c \<in> set lower_letters \<Longrightarrow> to_lower c = c"
  unfolding lower_letters_def upper_letters_def to_lower_def
  by (simp; elim disjE; simp)

lemma capitalize_letters:
  assumes "set w \<subseteq> set lower_letters"
  shows "set (capitalize w) \<subseteq> set lower_letters \<union> set upper_letters"
proof (cases w)
  case Nil
  then show ?thesis by simp
next
  case (Cons c cs)
  then have "to_upper c \<in> set upper_letters" using assms to_upper_letter by simp
  moreover have "map to_lower cs = cs" using assms Cons to_lower_letter
    by (simp add: map_idI subset_iff)
  ultimately show ?thesis using assms Cons by auto
qed

section \<open>Titles\<close>

lemma pool_choice_letters:
  assumes "choice LOREM_WORDS r = (w, r')"
  shows "w \<noteq> []" "set w \<subseteq> set lower_letters \<union> set upper_letters"
    "capitalize w \<noteq> []" "set (capitalize w) \<subseteq> set lower_letters \<union> set upper_letters"
proof -
  have p: "w \<noteq> []" "set w \<subseteq> set lower_letters"
    using choice_pool[OF assms] pool_lower[of w] by simp_all
  show "w \<noteq> []" "set w \<subseteq> set lower_letters \<union> set upper_letters" using p by auto
  show "capitalize w \<noteq> []" using p(1) by (cases w) auto
  show "set (capitalize w) \<subseteq> set lower_letters \<union> set upper_letters"
    using capitalize_letters[OF p(2)] .
qed

lemma gen_title_loop_words:
  assumes "\<forall>w \<in> set words. w \<noteq> [] \<and> set w \<subseteq> set lower_letters \<union> set upper_letters"
    and "gen_title_loop char_count words r = (ws, r')"
  shows "\<forall>w \<in> set ws. w \<noteq> [] \<and> set w \<subseteq> set lower_letters \<union> set upper_letters"
  using assms
proof (induction char_count words r rule: gen_title_loop.induct)
  case (1 char_count words r)
  show ?case
  proof (cases "int (length (join '' '' words)) < char_count")
    case True
    obtain w r1 where c: "choice LOREM_WORDS r = (w, r1)" by (cases "choice LOREM_WORDS r")
    have step: "gen_title_loop char_count (words @ [if words = [] then capitalize w else w]) r1
                = (ws, r')"
      using "1.prems"(2) True c by (subst (asm) gen_title_loop.simps) simp
    have "\<forall>x \<in> set (words @ [if words = [] then capitalize w else w]).
            x \<noteq> [] \<and> set x \<subseteq> set lower_letters \<union> set upper_letters"
      using "1.prems"(1) pool_choice_letters[OF c] by auto
    then show ?thesis using "1.IH"[OF True c[symmetric] _ step] by blast
  next
    case False
    then have "ws = words" using "1.prems"(2) by (subst (asm) gen_title_loop.simps) simp
    then show ?thesis using "1.prems"(1) by simp
  qed
qed

lemma gen_title_props:
  assumes "0 < char_count"
  shows "int (length (fst (gen_title char_count r))) \<le> char_count"
    and "set (fst (gen_title char_count r)) \<subseteq>
           set lower_letters \<union> set upper_letters \<union> {CHR '' ''}"
    and "fst (gen_title char_count r) \<noteq> [] \<longrightarrow>
           \<not> py_isspace (hd (fst (gen_title char_count r))) \<and>
           \<not> py_isspace (last (fst (gen_title char_count r)))"
proof -
  obtain ws r' where l: "gen_title_loop char_count [] r = (ws, r')"
    by (cases "gen_title_loop char_count [] r")
  define s where "s = py_take char_count (join '' '' ws)"
  have t: "fst (gen_title char_count r) = strip (rstrip s)"
    using assms l by (simp add: gen_title_def s_def)
  have "s = take (nat char_count) (join '' '' ws)" using assms by (simp add: s_def py_take_def)
  then have len: "int (length s) \<le> char_count" and sub: "set s \<subseteq> set (join '' '' ws)"
    using assms by (auto dest: in_set_takeD)
  have "length (strip (rstrip s)) \<le> length s"
    using length_strip[of "rstrip s"] length_rstrip[of s] by simp
  then show "int (length (fst (gen_title char_count r))) \<le> char_count" using len t by simp
  have w: "\<forall>w \<in> set ws. w \<noteq> [] \<and> set w \<subseteq> set lower_letters \<union> set upper_letters"
    using gen_title_loop_words[OF _ l] by simp
  have "set (join '' '' ws) \<subseteq> set lower_letters \<union> set upper_letters \<union> {CHR '' ''}"
    using set_join[of "'' ''" ws] w by auto
  moreover have "set (strip (rstrip s)) \<subseteq> set s"
    using set_strip[of "rstrip s"] set_rstrip[of s] by blast
  ultimately show "set (fst (gen_title char_count r)) \<subseteq>
           set lower_letters \<union> set upper_letters \<union> {CHR '' ''}"
    using sub t by auto
  show "fst (gen_title char_count r) \<noteq> [] \<longrightarrow>
           \<not> py_isspace (hd (fst (gen_title char_count r))) \<and>
           \<not> py_isspace (last (fst (gen_title char_count r)))"
    using strip_ends[of "rstrip s"] t by simp
qed

text \<open>
  C7. For \<open>char_count > 0\<close>, \<open>gen_title\<close> returns at most \<open>char_count\<close> characters, all of
  them letters or spaces (one line, no punctuation), with no whitespace at either end;
  for \<open>char_count \<le> 0\<close> it returns the empty string.
\<close>

theorem gen_title_spec:
  "(0 < char_count \<longrightarrow>
      int (length (fst (gen_title char_count r))) \<le> char_count \<and>
      set (fst (gen_title char_count r)) \<subseteq>
        set lower_letters \<union> set upper_letters \<union> {CHR '' ''} \<and>
      (fst (gen_title char_count r) \<noteq> [] \<longrightarrow>
         \<not> py_isspace (hd (fst (gen_title char_count r))) \<and>
         \<not> py_isspace (last (fst (gen_title char_count r))))) \<and>
   (char_count \<le> 0 \<longrightarrow> fst (gen_title char_count r) = '''')"
proof -
  have "char_count \<le> 0 \<longrightarrow> fst (gen_title char_count r) = ''''"
    by (simp add: gen_title_def)
  then show ?thesis using gen_title_props[of char_count r] by blast
qed

theorem gen_title_spec_witness:
  "(0::int) < 10 \<and>
   fst (gen_title 10 \<lparr>draws = (\<lambda>i. 37 * i + 11), pos = 0\<rparr>) = ''Tempor eu'' \<and>
   int (length (fst (gen_title 10 \<lparr>draws = (\<lambda>i. 37 * i + 11), pos = 0\<rparr>))) \<le> 10 \<and>
   (0::int) \<le> 0 \<and>
   fst (gen_title 0 \<lparr>draws = (\<lambda>i. 37 * i + 11), pos = 0\<rparr>) = ''''"
proof -
  have h1: "(0::int) < 10" and h2: "(0::int) \<le> 0" by simp_all
  have v: "fst (gen_title 10 \<lparr>draws = (\<lambda>i. 37 * i + 11), pos = 0\<rparr>) = ''Tempor eu''"
    by code_simp
  show ?thesis
    using h1 h2 v gen_title_spec[of 10 "\<lparr>draws = (\<lambda>i. 37 * i + 11), pos = 0\<rparr>"]
      gen_title_spec[of 0 "\<lparr>draws = (\<lambda>i. 37 * i + 11), pos = 0\<rparr>"]
    by blast
qed

section \<open>Paragraphs\<close>

lemma pool_form_choice:
  assumes "choice LOREM_WORDS r = (w, r')"
  shows "pool_form w" "pool_form (capitalize w)" "pool_form (w @ ''.'')"
    "pool_form (capitalize w @ ''.'')"
  using choice_pool[OF assms] unfolding pool_form_def by blast+

lemma pool_form_chars:
  assumes "pool_form x"
  shows "x \<noteq> []" "set x \<subseteq> set lower_letters \<union> set upper_letters \<union> {CHR ''.''}"
proof -
  obtain w where w: "w \<in> set LOREM_WORDS"
    "x = w \<or> x = capitalize w \<or> x = w @ ''.'' \<or> x = capitalize w @ ''.''"
    using assms unfolding pool_form_def by blast
  have p: "w \<noteq> []" "set w \<subseteq> set lower_letters" using pool_lower[OF w(1)] by simp_all
  have c: "capitalize w \<noteq> []" using p(1) by (cases w) auto
  show "x \<noteq> []" using w(2) p(1) c by auto
  show "set x \<subseteq> set lower_letters \<union> set upper_letters \<union> {CHR ''.''}"
    using w(2) p(2) capitalize_letters[OF p(2)] by auto
qed

lemma pool_form_dot:
  assumes "pool_form x" "last x \<noteq> CHR ''.''"
  shows "pool_form (x @ ''.'')"
proof -
  obtain w where w: "w \<in> set LOREM_WORDS"
    "x = w \<or> x = capitalize w \<or> x = w @ ''.'' \<or> x = capitalize w @ ''.''"
    using assms(1) unfolding pool_form_def by blast
  have "x = w \<or> x = capitalize w" using w(2) assms(2) by auto
  then show ?thesis using w(1) unfolding pool_form_def by blast
qed

lemma gen_paragraph_loop_inv:
  assumes "\<forall>x \<in> set words. pool_form x"
    and "char_len \<le> int (length (join '' '' words))"
    and "gen_paragraph_loop target_chars words char_len sentence_len words_in_sentence r = (ws, r')"
  shows "(\<forall>x \<in> set ws. pool_form x) \<and> target_chars \<le> int (length (join '' '' ws))"
  using assms
proof (induction target_chars words char_len sentence_len words_in_sentence r
       rule: gen_paragraph_loop.induct)
  case (1 target_chars words char_len sentence_len words_in_sentence r)
  show ?case
  proof (cases "char_len < target_chars")
    case False
    then have "ws = words" using "1.prems"(3) by (subst (asm) gen_paragraph_loop.simps) simp
    then show ?thesis using "1.prems"(1,2) False by simp
  next
    case True
    obtain w0 r1 where c: "choice LOREM_WORDS r = (w0, r1)" by (cases "choice LOREM_WORDS r")
    define w where "w = (if words_in_sentence = 0 then capitalize w0 else w0)"
    define words1 where "words1 = words @ [w]"
    define wis1 where "wis1 = words_in_sentence + 1"
    define cl1 where "cl1 = int (length (join '' '' words1))"
    have pw: "pool_form w" "pool_form (w @ ''.'')"
      using pool_form_choice[OF c] by (auto simp add: w_def)
    show ?thesis
    proof (cases "sentence_len \<le> wis1")
      case le: True
      obtain sl1 r2 where ri: "randint 6 20 r1 = (sl1, r2)" by (cases "randint 6 20 r1")
      have step: "gen_paragraph_loop target_chars (butlast words1 @ [last words1 @ ''.'']) cl1
                    sl1 0 r2 = (ws, r')"
        using "1.prems"(3) True c le ri
        by (subst (asm) gen_paragraph_loop.simps)
           (simp add: Let_def w_def words1_def wis1_def cl1_def)
      have eq: "butlast words1 @ [last words1 @ ''.''] = words @ [w @ ''.'']"
        by (simp add: words1_def)
      have a: "\<forall>x \<in> set (butlast words1 @ [last words1 @ ''.'']). pool_form x"
        using "1.prems"(1) pw unfolding eq by simp
      have b: "cl1 \<le> int (length (join '' '' (butlast words1 @ [last words1 @ ''.''])))"
        unfolding eq cl1_def words1_def by (simp add: length_join_snoc)
      show ?thesis
        using "1.IH"(1)[OF True c[symmetric] w_def words1_def wis1_def cl1_def le ri[symmetric]
            a b step] .
    next
      case gt: False
      have step: "gen_paragraph_loop target_chars words1 cl1 sentence_len wis1 r1 = (ws, r')"
        using "1.prems"(3) True c gt
        by (subst (asm) gen_paragraph_loop.simps)
           (simp add: Let_def w_def words1_def wis1_def cl1_def)
      have a: "\<forall>x \<in> set words1. pool_form x" using "1.prems"(1) pw by (simp add: words1_def)
      have b: "cl1 \<le> int (length (join '' '' words1))" by (simp add: cl1_def)
      show ?thesis
        using "1.IH"(2)[OF True c[symmetric] w_def words1_def wis1_def cl1_def gt a b step] .
    qed
  qed
qed

lemma endswith_dot: "endswith s ''.'' \<longleftrightarrow> s \<noteq> [] \<and> last s = CHR ''.''"
proof (cases s rule: rev_cases)
  case Nil
  then show ?thesis by (simp add: endswith_def)
next
  case (snoc xs x)
  then show ?thesis by (auto simp add: endswith_def)
qed

lemma gen_paragraph_props:
  assumes "0 < target_chars"
  shows "target_chars \<le> int (length (fst (gen_paragraph target_chars r)))"
    and "endswith (fst (gen_paragraph target_chars r)) ''.''"
    and "\<exists>ws. ws \<noteq> [] \<and> fst (gen_paragraph target_chars r) = join '' '' ws \<and>
              (\<forall>x \<in> set ws. pool_form x)"
proof -
  obtain sl r1 where ri: "randint 8 16 r = (sl, r1)" by (cases "randint 8 16 r")
  obtain ws r2 where l: "gen_paragraph_loop target_chars [] 0 sl 0 r1 = (ws, r2)"
    by (cases "gen_paragraph_loop target_chars [] 0 sl 0 r1")
  have inv: "\<forall>x \<in> set ws. pool_form x" "target_chars \<le> int (length (join '' '' ws))"
    using gen_paragraph_loop_inv[OF _ _ l] by simp_all
  have ne: "ws \<noteq> []" using inv(2) assms by auto
  have lw: "pool_form (last ws)" "pool_form (hd ws)" using inv(1) ne by simp_all
  have j: "join '' '' ws \<noteq> []" using join_Nil_iff[OF ne] pool_form_chars(1)[OF lw(1)] by simp
  have "\<not> py_isspace (hd (join '' '' ws))"
    using hd_join[OF ne] pool_form_chars[OF lw(2)] letter_not_space[of "hd (hd ws)"]
    by (metis hd_in_set subsetD)
  moreover have "\<not> py_isspace (last (join '' '' ws))"
    using last_join[OF ne] pool_form_chars[OF lw(1)] letter_not_space[of "last (last ws)"]
    by (metis last_in_set subsetD)
  ultimately have s: "strip (join '' '' ws) = join '' '' ws" using strip_id[OF j] by simp
  have g: "fst (gen_paragraph target_chars r) =
      (if endswith (join '' '' ws) ''.'' then join '' '' ws else join '' '' ws @ ''.'')"
    using assms ri l s by (simp add: gen_paragraph_def Let_def)
  show "target_chars \<le> int (length (fst (gen_paragraph target_chars r)))"
    using g inv(2) by auto
  show "endswith (fst (gen_paragraph target_chars r)) ''.''"
    using g by (auto simp add: endswith_dot)
  show "\<exists>ws. ws \<noteq> [] \<and> fst (gen_paragraph target_chars r) = join '' '' ws \<and>
              (\<forall>x \<in> set ws. pool_form x)"
  proof (cases "endswith (join '' '' ws) ''.''")
    case True
    then show ?thesis using g ne inv(1) by auto
  next
    case False
    then have "last (last ws) \<noteq> CHR ''.''"
      using last_join[OF ne] pool_form_chars(1)[OF lw(1)] j by (simp add: endswith_dot)
    then have d: "pool_form (last ws @ ''.'')" using pool_form_dot[OF lw(1)] by simp
    have "join '' '' (butlast ws @ [last ws @ ''.'']) = join '' '' ws @ ''.''"
    proof (cases "butlast ws = []")
      case True
      then have "ws = [last ws]" using ne by (metis append_butlast_last_id append_Nil)
      then show ?thesis using True by (metis append_Nil join.simps(2))
    next
      case bl: False
      have "join '' '' (butlast ws @ [last ws @ ''.'']) =
            join '' '' (butlast ws) @ '' '' @ last ws @ ''.''"
        using join_snoc[OF bl] by simp
      moreover have "join '' '' ws = join '' '' (butlast ws) @ '' '' @ last ws"
        using join_snoc[OF bl, of "'' ''" "last ws"] ne by simp
      ultimately show ?thesis by simp
    qed
    moreover have "\<forall>x \<in> set (butlast ws @ [last ws @ ''.'']). pool_form x"
      using inv(1) d by (auto dest: in_set_butlastD)
    ultimately show ?thesis using g False by (metis snoc_eq_iff_butlast)
  qed
qed



text \<open>
  C8. For \<open>target_chars \<le> 0\<close>, \<open>gen_paragraph\<close> returns the empty string and the generator
  state it was given, so the next draw is the one an untouched generator makes.
\<close>

theorem gen_paragraph_nonpositive:
  assumes "target_chars \<le> 0"
  shows "gen_paragraph target_chars r = ('''', r) \<and>
         randbelow k (snd (gen_paragraph target_chars r)) = randbelow k r"
  using assms by (simp add: gen_paragraph_def)

theorem gen_paragraph_nonpositive_witness:
  "(- 5::int) \<le> 0 \<and>
   gen_paragraph (- 5) \<lparr>draws = (\<lambda>i. 37 * i + 11), pos = 4\<rparr> =
     ('''', \<lparr>draws = (\<lambda>i. 37 * i + 11), pos = 4\<rparr>) \<and>
   randbelow 69 (snd (gen_paragraph (- 5) \<lparr>draws = (\<lambda>i. 37 * i + 11), pos = 4\<rparr>)) =
     randbelow 69 \<lparr>draws = (\<lambda>i. 37 * i + 11), pos = 4\<rparr>"
proof -
  have h: "(- 5::int) \<le> 0" by simp
  show ?thesis
    using h gen_paragraph_nonpositive[OF h, of "\<lparr>draws = (\<lambda>i. 37 * i + 11), pos = 4\<rparr>" 69]
    by blast
qed

section \<open>The pipeline\<close>

lemma gen_paragraphs_lengths:
  assumes "\<forall>n \<in> set ns. 0 < n \<and> b \<le> n"
  shows "length (fst (gen_paragraphs ns r)) = length ns \<and>
         (\<forall>p \<in> set (fst (gen_paragraphs ns r)). b \<le> int (length p))"
  using assms
proof (induction ns arbitrary: r)
  case Nil
  then show ?case by simp
next
  case (Cons n ns)
  obtain p r1 where g: "gen_paragraph n r = (p, r1)" by (cases "gen_paragraph n r")
  obtain ps r2 where gs: "gen_paragraphs ns r1 = (ps, r2)" by (cases "gen_paragraphs ns r1")
  have "n \<le> int (length (fst (gen_paragraph n r)))"
    using gen_paragraph_props(1)[of n r] Cons.prems by simp
  then have "b \<le> int (length p)" using g Cons.prems by simp
  moreover have "length ps = length ns \<and> (\<forall>p \<in> set ps. b \<le> int (length p))"
    using Cons.IH[of r1] Cons.prems gs by simp
  ultimately show ?case using g gs by simp
qed

lemma gen_paragraphs_nth:
  assumes "i < length ns"
  shows "fst (gen_paragraphs ns r) ! i =
         fst (gen_paragraph (ns ! i) (snd (gen_paragraphs (take i ns) r)))"
  using assms
proof (induction ns arbitrary: i r)
  case Nil
  then show ?case by simp
next
  case (Cons n ns)
  obtain p r1 where g: "gen_paragraph n r = (p, r1)" by (cases "gen_paragraph n r")
  obtain ps r2 where gs: "gen_paragraphs ns r1 = (ps, r2)" by (cases "gen_paragraphs ns r1")
  show ?case
  proof (cases i)
    case 0
    then show ?thesis using g gs by simp
  next
    case (Suc j)
    obtain qs r3 where gt: "gen_paragraphs (take j ns) r1 = (qs, r3)"
      by (cases "gen_paragraphs (take j ns) r1")
    have "j < length ns" using Cons.prems Suc by simp
    from Cons.IH[OF this, of r1]
    have "ps ! j = fst (gen_paragraph (ns ! j) r3)" using gs gt by simp
    then show ?thesis using Suc g gs gt by simp
  qed
qed

lemma gen_paragraphs_length: "length (fst (gen_paragraphs ns r)) = length ns"
proof (induction ns arbitrary: r)
  case Nil
  then show ?case by simp
next
  case (Cons n ns)
  then show ?case by (simp split: prod.splits) (metis fst_conv)
qed

lemma main_texts_unfold:
  "main_texts seeded sys cfg =
     (if include_title cfg
      then fst (gen_title (title_characters cfg)
             (snd (gen_paragraphs
                (distribute_chars (effective_total (characters cfg) (paragraphs cfg))
                   (paragraphs cfg))
                (case seed cfg of Some s \<Rightarrow> seeded s | None \<Rightarrow> sys))))
      else '''',
      fst (gen_paragraphs
             (distribute_chars (effective_total (characters cfg) (paragraphs cfg))
                (paragraphs cfg))
             (case seed cfg of Some s \<Rightarrow> seeded s | None \<Rightarrow> sys)))"
  by (simp add: main_texts_def Let_def split: prod.splits)

text \<open>
  C10. With \<open>paragraphs > 0\<close> and \<open>characters \<ge> 0\<close>, the pipeline of \<^verbatim>\<open>main\<close> generates
  \<open>paragraphs\<close> paragraph strings, and each has at least 20 characters.
\<close>

theorem pipeline_paragraphs_min_length:
  assumes "0 < paragraphs cfg" "0 \<le> characters cfg"
  shows "length (snd (main_texts seeded sys cfg)) = nat (paragraphs cfg) \<and>
         (\<forall>p \<in> set (snd (main_texts seeded sys cfg)). 20 \<le> length p)"
proof -
  define dist where "dist = distribute_chars (effective_total (characters cfg) (paragraphs cfg))
                   (paragraphs cfg)"
  have "20 * paragraphs cfg \<le> effective_total (characters cfg) (paragraphs cfg)"
    using effective_total_lower[of "paragraphs cfg" "characters cfg"] by (simp add: mult.commute)
  then have "\<forall>n \<in> set dist. 20 \<le> n"
    using distribute_lower[OF assms(1)] unfolding dist_def by blast
  then have "\<forall>n \<in> set dist. 0 < n \<and> 20 \<le> n" by auto
  from gen_paragraphs_lengths[OF this]
  have "length (snd (main_texts seeded sys cfg)) = length dist \<and>
        (\<forall>p \<in> set (snd (main_texts seeded sys cfg)). 20 \<le> int (length p))"
    by (simp add: main_texts_unfold dist_def)
  moreover have "length dist = nat (paragraphs cfg)"
    unfolding dist_def using distribute_length[OF assms(1)] by simp
  ultimately show ?thesis by auto
qed

theorem pipeline_paragraphs_min_length_witness:
  "0 < paragraphs ((example_settings ''lorem.md'')\<lparr>characters := 10\<rparr>) \<and>
   0 \<le> characters ((example_settings ''lorem.md'')\<lparr>characters := 10\<rparr>) \<and>
   snd (main_texts example_seeded example_rng ((example_settings ''lorem.md'')\<lparr>characters := 10\<rparr>))
     = [''Eiusmod dolore et excepteur.'', ''Proident nostrud officia.''] \<and>
   length (snd (main_texts example_seeded example_rng
     ((example_settings ''lorem.md'')\<lparr>characters := 10\<rparr>))) =
     nat (paragraphs ((example_settings ''lorem.md'')\<lparr>characters := 10\<rparr>))"
proof -
  have h1: "0 < paragraphs ((example_settings ''lorem.md'')\<lparr>characters := 10\<rparr>)"
    and h2: "0 \<le> characters ((example_settings ''lorem.md'')\<lparr>characters := 10\<rparr>)"
    by (simp_all add: example_settings_def)
  have v: "snd (main_texts example_seeded example_rng
             ((example_settings ''lorem.md'')\<lparr>characters := 10\<rparr>))
     = [''Eiusmod dolore et excepteur.'', ''Proident nostrud officia.'']"
    by code_simp
  show ?thesis
    using h1 h2 v pipeline_paragraphs_min_length[OF h1 h2, of example_seeded example_rng]
    by blast
qed

lemma gen_paragraphs_state:
  "snd (gen_paragraphs ns r) = foldl (\<lambda>r n. snd (gen_paragraph n r)) r ns"
proof (induction ns arbitrary: r)
  case Nil
  then show ?case by simp
next
  case (Cons n ns)
  obtain p r1 where g: "gen_paragraph n r = (p, r1)" by (cases "gen_paragraph n r")
  obtain ps r2 where gs: "gen_paragraphs ns r1 = (ps, r2)" by (cases "gen_paragraphs ns r1")
  have "r2 = foldl (\<lambda>r n. snd (gen_paragraph n r)) r1 ns" using Cons[of r1] gs by simp
  then show ?case using g gs by simp
qed

lemma gen_paragraphs_texts:
  "fst (gen_paragraphs ns r) =
     map (\<lambda>i. fst (gen_paragraph (ns ! i)
                  (foldl (\<lambda>r n. snd (gen_paragraph n r)) r (take i ns))))
       [0..<length ns]"
proof (rule nth_equalityI)
  show "length (fst (gen_paragraphs ns r)) =
        length (map (\<lambda>i. fst (gen_paragraph (ns ! i)
                  (foldl (\<lambda>r n. snd (gen_paragraph n r)) r (take i ns))))
       [0..<length ns])"
    by (simp add: gen_paragraphs_length)
next
  fix i
  assume "i < length (fst (gen_paragraphs ns r))"
  then have i: "i < length ns" by (simp add: gen_paragraphs_length)
  show "fst (gen_paragraphs ns r) ! i =
        map (\<lambda>i. fst (gen_paragraph (ns ! i)
                  (foldl (\<lambda>r n. snd (gen_paragraph n r)) r (take i ns))))
       [0..<length ns] ! i"
    using i gen_paragraphs_nth[OF i, of r] by (simp add: gen_paragraphs_state)
qed

text \<open>
  C2. With an integer seed, the document \<^verbatim>\<open>main\<close> writes is a function of the seed and
  of the settings \<open>characters\<close>, \<open>paragraphs\<close>, \<open>max_line_length\<close>, \<open>include_title\<close> and
  \<open>title_characters\<close>: two runs that agree on them write the same document, whatever
  state a self-seeded generator would have had. The generator is used in this order.
  Starting from the state of the seed, the paragraph generations run one after the other,
  each from the state the one before it has left: paragraph \<open>i\<close> is the result of
  \<open>gen_paragraph\<close> on budget \<open>i\<close> from the state reached after the budgets before it.
  The title is the result of \<open>gen_title\<close> from the state reached after all the budgets.
  The document is \<open>render_markdown\<close> of this title and these paragraphs.
\<close>

theorem main_reproducible:
  assumes "seed c1 = Some s" "seed c2 = Some s"
    and "characters c1 = characters c2" "paragraphs c1 = paragraphs c2"
    and "max_line_length c1 = max_line_length c2" "include_title c1 = include_title c2"
    and "title_characters c1 = title_characters c2"
  shows "main_document seeded sys1 c1 = main_document seeded sys2 c2 \<and>
         (let dist = distribute_chars (effective_total (characters c1) (paragraphs c1))
                       (paragraphs c1);
              step = (\<lambda>r n. snd (gen_paragraph n r));
              title_text =
                (if include_title c1
                 then fst (gen_title (title_characters c1) (foldl step (seeded s) dist))
                 else '''');
              paragraphs_text =
                map (\<lambda>i. fst (gen_paragraph (dist ! i) (foldl step (seeded s) (take i dist))))
                  [0..<length dist]
          in main_texts seeded sys1 c1 = (title_text, paragraphs_text) \<and>
             main_document seeded sys1 c1 =
               render_markdown title_text paragraphs_text (max_line_length c1))"
proof -
  have "main_texts seeded sys1 c1 = main_texts seeded sys2 c2"
    using assms by (simp add: main_texts_unfold)
  then have d: "main_document seeded sys1 c1 = main_document seeded sys2 c2"
    using assms(5) by (simp add: main_document_def)
  define dist where "dist = distribute_chars (effective_total (characters c1) (paragraphs c1))
                       (paragraphs c1)"
  define title_text where "title_text =
                (if include_title c1
                 then fst (gen_title (title_characters c1)
                        (foldl (\<lambda>r n. snd (gen_paragraph n r)) (seeded s) dist))
                 else '''')"
  define paragraphs_text where "paragraphs_text =
                map (\<lambda>i. fst (gen_paragraph (dist ! i)
                             (foldl (\<lambda>r n. snd (gen_paragraph n r)) (seeded s) (take i dist))))
                  [0..<length dist]"
  have t: "main_texts seeded sys1 c1 = (title_text, paragraphs_text)"
    unfolding main_texts_unfold title_text_def paragraphs_text_def dist_def
    using assms(1) gen_paragraphs_texts gen_paragraphs_state by simp
  then have m: "main_document seeded sys1 c1 =
               render_markdown title_text paragraphs_text (max_line_length c1)"
    by (simp add: main_document_def)
  show ?thesis
    using d t m unfolding Let_def title_text_def paragraphs_text_def dist_def by blast
qed

theorem main_reproducible_witness:
  "seed (example_settings ''a.md'') = Some 42 \<and> seed (example_settings ''b.md'') = Some 42 \<and>
   characters (example_settings ''a.md'') = characters (example_settings ''b.md'') \<and>
   paragraphs (example_settings ''a.md'') = paragraphs (example_settings ''b.md'') \<and>
   max_line_length (example_settings ''a.md'') = max_line_length (example_settings ''b.md'') \<and>
   include_title (example_settings ''a.md'') = include_title (example_settings ''b.md'') \<and>
   title_characters (example_settings ''a.md'') = title_characters (example_settings ''b.md'') \<and>
   main_document example_seeded example_rng (example_settings ''a.md'') =
   main_document example_seeded (example_seeded 7) (example_settings ''b.md'') \<and>
   main_document example_seeded example_rng (example_settings ''a.md'') =
     Inr (''# Veniam culpa laboris'' @ [CHR 0x0A, CHR 0x0A] @
          ''Eiusmod dolore et excepteur enim'' @ [CHR 0x0A] @ ''proident nostrud officia.'' @
          [CHR 0x0A, CHR 0x0A] @
          ''Est consequat sit in sed esse ut nulla'' @ [CHR 0x0A] @ ''aliqua cupidatat.'') \<and>
   main_texts example_seeded example_rng (example_settings ''a.md'') =
     (''Veniam culpa laboris'',
      [''Eiusmod dolore et excepteur enim proident nostrud officia.'',
       ''Est consequat sit in sed esse ut nulla aliqua cupidatat.'']) \<and>
   pos (example_seeded 42) = 0 \<and>
   pos (foldl (\<lambda>r n. snd (gen_paragraph n r)) (example_seeded 42) [50]) = 9 \<and>
   pos (foldl (\<lambda>r n. snd (gen_paragraph n r)) (example_seeded 42) [50, 50]) = 20 \<and>
   fst (gen_title 20 (foldl (\<lambda>r n. snd (gen_paragraph n r)) (example_seeded 42) [50, 50])) =
     ''Veniam culpa laboris'' \<and>
   fst (gen_title 20 (example_seeded 42)) = ''In eiusmod dolore et''"
proof -
  have h: "seed (example_settings ''a.md'') = Some 42" "seed (example_settings ''b.md'') = Some 42"
   "characters (example_settings ''a.md'') = characters (example_settings ''b.md'')"
   "paragraphs (example_settings ''a.md'') = paragraphs (example_settings ''b.md'')"
   "max_line_length (example_settings ''a.md'') = max_line_length (example_settings ''b.md'')"
   "include_title (example_settings ''a.md'') = include_title (example_settings ''b.md'')"
   "title_characters (example_settings ''a.md'') = title_characters (example_settings ''b.md'')"
    by (simp_all add: example_settings_def)
  have v1: "main_document example_seeded example_rng (example_settings ''a.md'') =
     Inr (''# Veniam culpa laboris'' @ [CHR 0x0A, CHR 0x0A] @
          ''Eiusmod dolore et excepteur enim'' @ [CHR 0x0A] @ ''proident nostrud officia.'' @
          [CHR 0x0A, CHR 0x0A] @
          ''Est consequat sit in sed esse ut nulla'' @ [CHR 0x0A] @ ''aliqua cupidatat.'')"
    by code_simp
  have v2: "main_texts example_seeded example_rng (example_settings ''a.md'') =
     (''Veniam culpa laboris'',
      [''Eiusmod dolore et excepteur enim proident nostrud officia.'',
       ''Est consequat sit in sed esse ut nulla aliqua cupidatat.''])"
    by code_simp
  have v3: "pos (example_seeded 42) = 0" by (simp add: example_seeded_def)
  have v4: "pos (foldl (\<lambda>r n. snd (gen_paragraph n r)) (example_seeded 42) [50]) = 9"
    by code_simp
  have v5: "pos (foldl (\<lambda>r n. snd (gen_paragraph n r)) (example_seeded 42) [50, 50]) = 20"
    by code_simp
  have v6: "fst (gen_title 20 (foldl (\<lambda>r n. snd (gen_paragraph n r)) (example_seeded 42) [50, 50])) =
     ''Veniam culpa laboris''"
    by code_simp
  have v7: "fst (gen_title 20 (example_seeded 42)) = ''In eiusmod dolore et''"
    by code_simp
  have e: "main_document example_seeded example_rng (example_settings ''a.md'') =
        main_document example_seeded (example_seeded 7) (example_settings ''b.md'')"
    using main_reproducible[OF h, of example_seeded example_rng "example_seeded 7"] by blast
  show ?thesis using h e v1 v2 v3 v4 v5 v6 v7 by (intro conjI)
qed

section \<open>The wrapping loop\<close>

text \<open>A property the rounds of the outer loop keep holds of the lines it returns.\<close>

lemma wrap_loop_invariant:
  assumes "0 < width"
    and "I lines chunks"
    and "\<And>ls cs. I ls cs \<Longrightarrow> cs \<noteq> [] \<Longrightarrow>
                 I (if fst (wrap_step width (ls \<noteq> []) cs) \<noteq> []
                    then ls @ [concat (fst (wrap_step width (ls \<noteq> []) cs))] else ls)
                   (snd (wrap_step width (ls \<noteq> []) cs))"
  shows "I (wrap_loop width lines chunks) []"
  using assms
proof (induction width lines chunks rule: wrap_loop.induct)
  case (1 width lines chunks)
  show ?case
  proof (cases "chunks = []")
    case True
    then have "wrap_loop width lines chunks = lines" by (subst wrap_loop.simps) simp
    then show ?thesis using "1.prems"(2) True by simp
  next
    case False
    obtain cur_line chunks' where st: "wrap_step width (lines \<noteq> []) chunks = (cur_line, chunks')"
      by (cases "wrap_step width (lines \<noteq> []) chunks")
    have u: "wrap_loop width lines chunks =
        wrap_loop width (if cur_line \<noteq> [] then lines @ [concat cur_line] else lines) chunks'"
      using False "1.prems"(1) st by (subst wrap_loop.simps) simp
    have c: "\<not> (chunks = [] \<or> width \<le> 0)" using False "1.prems"(1) by simp
    have i: "I (if cur_line \<noteq> [] then lines @ [concat cur_line] else lines) chunks'"
      using "1.prems"(3)[OF "1.prems"(2) False] unfolding st fst_conv snd_conv .
    show ?thesis
      unfolding u using "1.IH"[OF c st[symmetric] "1.prems"(1) i "1.prems"(3)] by simp
  qed
qed

lemma wrap_loop_line_lengths:
  assumes "0 < width"
  shows "\<forall>l \<in> set (wrap_loop width [] chunks). int (length l) \<le> width"
proof -
  have "(\<lambda>ls cs. \<forall>l \<in> set ls. int (length l) \<le> width) (wrap_loop width [] chunks) []"
  proof (rule wrap_loop_invariant[OF assms])
    show "\<forall>l \<in> set []. int (length l) \<le> width" by simp
  next
    fix ls cs :: "string list"
    assume "\<forall>l \<in> set ls. int (length l) \<le> width"
    then show "\<forall>l \<in> set (if fst (wrap_step width (ls \<noteq> []) cs) \<noteq> []
                    then ls @ [concat (fst (wrap_step width (ls \<noteq> []) cs))] else ls).
                 int (length l) \<le> width"
      using wrap_step_line_length[OF assms, of "ls \<noteq> []" cs] by simp
  qed
  then show ?thesis by simp
qed

lemma wrap_loop_lines_nonempty:
  assumes "0 < width" "[] \<notin> set chunks"
  shows "[] \<notin> set (wrap_loop width [] chunks) \<and>
         set (concat (wrap_loop width [] chunks)) \<subseteq> set (concat chunks)"
proof -
  define A where "A = set (concat chunks)"
  have "(\<lambda>ls cs. [] \<notin> set ls \<and> [] \<notin> set cs \<and> set (concat ls) \<subseteq> A \<and> set (concat cs) \<subseteq> A)
          (wrap_loop width [] chunks) []"
  proof (rule wrap_loop_invariant[OF assms(1)])
    show "[] \<notin> set [] \<and> [] \<notin> set chunks \<and> set (concat []) \<subseteq> A \<and> set (concat chunks) \<subseteq> A"
      using assms(2) by (simp add: A_def)
  next
    fix ls cs :: "string list"
    assume a: "[] \<notin> set ls \<and> [] \<notin> set cs \<and> set (concat ls) \<subseteq> A \<and> set (concat cs) \<subseteq> A"
    define f where "f = fst (wrap_step width (ls \<noteq> []) cs)"
    define s where "s = snd (wrap_step width (ls \<noteq> []) cs)"
    have ne: "[] \<notin> set f" "[] \<notin> set s"
      using wrap_step_nonempty[OF assms(1), of cs "ls \<noteq> []"] a by (simp_all add: f_def s_def)
    have sub: "set (concat f) \<subseteq> A" "set (concat s) \<subseteq> A"
      using wrap_step_pieces[OF assms(1), of "ls \<noteq> []" cs] a unfolding f_def s_def by blast+
    have "f \<noteq> [] \<longrightarrow> concat f \<noteq> []" using ne(1) by (cases f) auto
    then have "[] \<notin> set (if f \<noteq> [] then ls @ [concat f] else ls)" using a by auto
    moreover have "set (concat (if f \<noteq> [] then ls @ [concat f] else ls)) \<subseteq> A"
      using a sub(1) by auto
    ultimately show "[] \<notin> set (if fst (wrap_step width (ls \<noteq> []) cs) \<noteq> []
                    then ls @ [concat (fst (wrap_step width (ls \<noteq> []) cs))] else ls) \<and>
          [] \<notin> set (snd (wrap_step width (ls \<noteq> []) cs)) \<and>
          set (concat (if fst (wrap_step width (ls \<noteq> []) cs) \<noteq> []
                    then ls @ [concat (fst (wrap_step width (ls \<noteq> []) cs))] else ls)) \<subseteq> A \<and>
          set (concat (snd (wrap_step width (ls \<noteq> []) cs))) \<subseteq> A"
      using ne(2) sub(2) unfolding f_def s_def by blast
  qed
  then show ?thesis by (simp add: A_def)
qed

lemma wrap_loop_visible:
  assumes "0 < width"
  shows "filter (\<lambda>c. \<not> py_isspace c) (concat (wrap_loop width [] chunks)) =
         filter (\<lambda>c. \<not> py_isspace c) (concat chunks)"
proof -
  define V where "V = filter (\<lambda>c. \<not> py_isspace c) (concat chunks)"
  have "(\<lambda>ls cs. filter (\<lambda>c. \<not> py_isspace c) (concat ls) @
                 filter (\<lambda>c. \<not> py_isspace c) (concat cs) = V)
          (wrap_loop width [] chunks) []"
  proof (rule wrap_loop_invariant[OF assms])
    show "filter (\<lambda>c. \<not> py_isspace c) (concat []) @
          filter (\<lambda>c. \<not> py_isspace c) (concat chunks) = V" by (simp add: V_def)
  next
    fix ls cs :: "string list"
    assume a: "filter (\<lambda>c. \<not> py_isspace c) (concat ls) @
               filter (\<lambda>c. \<not> py_isspace c) (concat cs) = V"
    define f where "f = fst (wrap_step width (ls \<noteq> []) cs)"
    define s where "s = snd (wrap_step width (ls \<noteq> []) cs)"
    have v: "filter (\<lambda>c. \<not> py_isspace c) (concat f) @ filter (\<lambda>c. \<not> py_isspace c) (concat s) =
             filter (\<lambda>c. \<not> py_isspace c) (concat cs)"
      using wrap_step_visible[OF assms, of "ls \<noteq> []" cs] by (simp add: f_def s_def)
    have "concat (if f \<noteq> [] then ls @ [concat f] else ls) = concat ls @ concat f" by simp
    then have "filter (\<lambda>c. \<not> py_isspace c) (concat (if f \<noteq> [] then ls @ [concat f] else ls)) @
          filter (\<lambda>c. \<not> py_isspace c) (concat s) = V"
      using a v by (simp only: filter_append append_assoc)
    then show "filter (\<lambda>c. \<not> py_isspace c)
           (concat (if fst (wrap_step width (ls \<noteq> []) cs) \<noteq> []
                    then ls @ [concat (fst (wrap_step width (ls \<noteq> []) cs))] else ls)) @
          filter (\<lambda>c. \<not> py_isspace c) (concat (snd (wrap_step width (ls \<noteq> []) cs))) = V"
      by (simp only: f_def s_def)
  qed
  then show ?thesis by (simp add: V_def)
qed

section \<open>Chunks\<close>

lemma word_chunk_concat: "fst (word_chunk prev acc cs) @ snd (word_chunk prev acc cs) = acc @ cs"
  by (induction prev acc cs rule: word_chunk.induct) auto

lemma word_chunk_nonempty: "acc \<noteq> [] \<Longrightarrow> fst (word_chunk prev acc cs) \<noteq> []"
  by (induction prev acc cs rule: word_chunk.induct) auto

lemma split_from_concat: "concat (split_from prev t) = t"
proof (induction prev t rule: split_from.induct)
  case (1 prev)
  then show ?case by simp
next
  case (2 prev c cs)
  show ?case
  proof (cases "tw_whitespace c")
    case True
    then show ?thesis using 2(1)[OF True refl] by (simp add: Let_def)
  next
    case False
    define em where "em = (if (case prev of [] \<Rightarrow> False | p # _ \<Rightarrow> word_punct p)
                           then emdash_len (c # cs) else None)"
    show ?thesis
    proof (cases em)
      case n: None
      have None: "(if (case prev of [] \<Rightarrow> False | p # _ \<Rightarrow> word_punct p)
                           then emdash_len (c # cs) else None) = None"
        using n by (simp add: em_def)
      obtain chunk rest where wc: "word_chunk (c # prev) [c] cs = (chunk, rest)"
        by (cases "word_chunk (c # prev) [c] cs")
      have "chunk @ rest = c # cs" using word_chunk_concat[of "c # prev" "[c]" cs] wc by simp
      then show ?thesis using 2(2)[OF False None wc[symmetric]] False None wc by simp
    next
      case s: (Some k)
      have Some: "(if (case prev of [] \<Rightarrow> False | p # _ \<Rightarrow> word_punct p)
                           then emdash_len (c # cs) else None) = Some k"
        using s by (simp add: em_def)
      then show ?thesis using 2(3)[OF False Some] False by simp
    qed
  qed
qed

lemma split_from_nonempty: "[] \<notin> set (split_from prev t)"
proof (induction prev t rule: split_from.induct)
  case (1 prev)
  then show ?case by simp
next
  case (2 prev c cs)
  show ?case
  proof (cases "tw_whitespace c")
    case True
    then show ?thesis using 2(1)[OF True refl] by (simp add: Let_def)
  next
    case False
    define em where "em = (if (case prev of [] \<Rightarrow> False | p # _ \<Rightarrow> word_punct p)
                           then emdash_len (c # cs) else None)"
    show ?thesis
    proof (cases em)
      case n: None
      have None: "(if (case prev of [] \<Rightarrow> False | p # _ \<Rightarrow> word_punct p)
                           then emdash_len (c # cs) else None) = None"
        using n by (simp add: em_def)
      obtain chunk rest where wc: "word_chunk (c # prev) [c] cs = (chunk, rest)"
        by (cases "word_chunk (c # prev) [c] cs")
      have "chunk \<noteq> []" using word_chunk_nonempty[of "[c]" "c # prev" cs] wc by simp
      then show ?thesis using 2(2)[OF False None wc[symmetric]] False None wc by simp
    next
      case s: (Some k)
      have Some: "(if (case prev of [] \<Rightarrow> False | p # _ \<Rightarrow> word_punct p)
                           then emdash_len (c # cs) else None) = Some k"
        using s by (simp add: em_def)
      then have "2 \<le> k" using emdash_len_ge[of "c # cs" k] by (auto split: if_splits)
      then have "take k (c # cs) \<noteq> []" by (cases k) auto
      then show ?thesis using 2(3)[OF False Some] False Some by simp
    qed
  qed
qed

lemma tw_whitespace_isspace: "tw_whitespace c \<Longrightarrow> py_isspace c"
  by (auto simp add: tw_whitespace_def py_isspace_def)

lemma expandtabs_visible:
  "filter (\<lambda>c. \<not> py_isspace c) (expandtabs col t) = filter (\<lambda>c. \<not> py_isspace c) t"
proof (induction col t rule: expandtabs.induct)
  case (1 col)
  then show ?case by simp
next
  case (2 col c cs)
  have "py_isspace (CHR 0x09)" "py_isspace (CHR '' '')" by (simp_all add: py_isspace_def)
  then show ?case using 2 by (auto simp add: Let_def filter_empty_conv)
qed

lemma munge_visible:
  "filter (\<lambda>c. \<not> py_isspace c) (munge_whitespace t) = filter (\<lambda>c. \<not> py_isspace c) t"
proof -
  have sp: "py_isspace (CHR '' '')" by (simp add: py_isspace_def)
  have "\<And>s. filter (\<lambda>c. \<not> py_isspace c) (map (\<lambda>c. if tw_whitespace c then CHR '' '' else c) s) =
         filter (\<lambda>c. \<not> py_isspace c) s"
  proof -
    fix s show "filter (\<lambda>c. \<not> py_isspace c) (map (\<lambda>c. if tw_whitespace c then CHR '' '' else c) s) =
         filter (\<lambda>c. \<not> py_isspace c) s"
      using sp tw_whitespace_isspace by (induction s) auto
  qed
  then show ?thesis unfolding munge_whitespace_def by (simp add: expandtabs_visible)
qed

lemma munge_no_newline: "CHR 0x0A \<notin> set (munge_whitespace t)"
  by (auto simp add: munge_whitespace_def tw_whitespace_def)

section \<open>Wrapped paragraphs\<close>

lemma isspace_newline: "py_isspace (CHR 0x0A)"
  by (simp add: py_isspace_def)

lemma concat_join_newline:
  "filter (\<lambda>c. \<not> py_isspace c) (join [CHR 0x0A] ls) = filter (\<lambda>c. \<not> py_isspace c) (concat ls)"
  using isspace_newline by (induction "[CHR 0x0A]" ls rule: join.induct) auto

lemma split_lines_line:
  "CHR 0x0A \<notin> set l \<Longrightarrow> split_lines (l @ CHR 0x0A # rest) = l # split_lines rest"
  by (induction l) auto

lemma split_lines_single: "CHR 0x0A \<notin> set l \<Longrightarrow> split_lines l = [l]"
  by (induction l) auto

lemma split_lines_join:
  assumes "\<forall>l \<in> set ls. CHR 0x0A \<notin> set l" "ls \<noteq> []"
  shows "split_lines (join [CHR 0x0A] ls) = ls"
  using assms
proof (induction "[CHR 0x0A]" ls rule: join.induct)
  case 1
  then show ?case by simp
next
  case (2 x)
  then show ?case by (simp add: split_lines_single)
next
  case (3 x y ys)
  then show ?case by (simp add: split_lines_line)
qed

lemma wrapped_lines:
  assumes "0 < w"
  shows "fill p w = Inr (join [CHR 0x0A] (wrap_loop w [] (split_chunks p)))"
    and "\<forall>l \<in> set (wrap_loop w [] (split_chunks p)).
           l \<noteq> [] \<and> CHR 0x0A \<notin> set l \<and> int (length l) \<le> w"
    and "filter (\<lambda>c. \<not> py_isspace c) (concat (wrap_loop w [] (split_chunks p))) =
         filter (\<lambda>c. \<not> py_isspace c) p"
proof -
  show "fill p w = Inr (join [CHR 0x0A] (wrap_loop w [] (split_chunks p)))"
    using assms by (simp add: fill_def wrap_def wrap_chunks_def)
  have ne: "[] \<notin> set (split_chunks p)" by (simp add: split_chunks_def split_from_nonempty)
  have cc: "concat (split_chunks p) = munge_whitespace p"
    by (simp add: split_chunks_def split_from_concat)
  have a: "[] \<notin> set (wrap_loop w [] (split_chunks p))"
    "set (concat (wrap_loop w [] (split_chunks p))) \<subseteq> set (munge_whitespace p)"
    using wrap_loop_lines_nonempty[OF assms ne] cc by simp_all
  have "\<forall>l \<in> set (wrap_loop w [] (split_chunks p)). CHR 0x0A \<notin> set l"
    using a(2) munge_no_newline[of p] by auto
  then show "\<forall>l \<in> set (wrap_loop w [] (split_chunks p)).
           l \<noteq> [] \<and> CHR 0x0A \<notin> set l \<and> int (length l) \<le> w"
    using a(1) wrap_loop_line_lengths[OF assms, of "split_chunks p"] by metis
  show "filter (\<lambda>c. \<not> py_isspace c) (concat (wrap_loop w [] (split_chunks p))) =
         filter (\<lambda>c. \<not> py_isspace c) p"
    using wrap_loop_visible[OF assms, of "split_chunks p"] cc munge_visible[of p] by simp
qed

lemma wrapped_text:
  assumes "0 < w"
  shows "\<exists>wrapped. fill p w = Inr wrapped \<and>
           (\<forall>l \<in> set (split_lines wrapped). int (length l) \<le> w) \<and>
           filter (\<lambda>c. \<not> py_isspace c) wrapped = filter (\<lambda>c. \<not> py_isspace c) p \<and>
           ((\<exists>c \<in> set p. \<not> py_isspace c) \<longrightarrow> wrapped \<noteq> [] \<and> last wrapped \<noteq> CHR 0x0A)"
proof -
  define ls where "ls = wrap_loop w [] (split_chunks p)"
  note f = wrapped_lines[OF assms, of p, folded ls_def]
  have l: "\<forall>l \<in> set (split_lines (join [CHR 0x0A] ls)). int (length l) \<le> w"
  proof (cases "ls = []")
    case True
    then show ?thesis using assms by simp
  next
    case False
    then show ?thesis using split_lines_join[OF _ False] f(2) by simp
  qed
  have v: "filter (\<lambda>c. \<not> py_isspace c) (join [CHR 0x0A] ls) = filter (\<lambda>c. \<not> py_isspace c) p"
    using concat_join_newline[of ls] f(3) by simp
  have e: "(\<exists>c \<in> set p. \<not> py_isspace c) \<longrightarrow>
            join [CHR 0x0A] ls \<noteq> [] \<and> last (join [CHR 0x0A] ls) \<noteq> CHR 0x0A"
  proof
    assume "\<exists>c \<in> set p. \<not> py_isspace c"
    then have "filter (\<lambda>c. \<not> py_isspace c) p \<noteq> []" by (simp add: filter_empty_conv)
    then have "concat ls \<noteq> []" using f(3) by (metis filter.simps(1))
    then have n: "ls \<noteq> []" by auto
    then have ll: "last ls \<noteq> []" "CHR 0x0A \<notin> set (last ls)" using f(2) by simp_all
    have "last (join [CHR 0x0A] ls) = last (last ls)" using last_join[OF n ll(1)] .
    then have "last (join [CHR 0x0A] ls) \<noteq> CHR 0x0A" using ll by (metis last_in_set)
    then show "join [CHR 0x0A] ls \<noteq> [] \<and> last (join [CHR 0x0A] ls) \<noteq> CHR 0x0A"
      using join_Nil_iff[OF n ll(1)] by simp
  qed
  show ?thesis using f(1) l v e by blast
qed

section \<open>The rendered document\<close>

lemma render_paragraphs_ok:
  assumes "0 < w"
  shows "render_paragraphs w parts ps =
         Inr (parts @ concat (map (\<lambda>p. [projr (fill p w), '''']) ps))"
proof (induction ps arbitrary: parts)
  case Nil
  then show ?case by simp
next
  case (Cons p ps)
  obtain wrapped where "fill p w = Inr wrapped" using wrapped_text[OF assms, of p] by blast
  then show ?case using Cons[of "parts @ [wrapped, '''']"] by simp
qed

lemma join_snoc_any:
  "join sep (ws @ [x]) = (if ws = [] then x else join sep ws @ sep @ x)"
  using join_snoc[of ws sep x] by simp

lemma render_markdown_last:
  assumes "0 < w" "ps \<noteq> []"
  shows "\<exists>pre. render_markdown title ps w = Inr (pre @ projr (fill (last ps) w))"
proof -
  define heading where "heading = (if title \<noteq> [] then [''# '' @ title, ''''] else [])"
  define f where "f = (\<lambda>p. [projr (fill p w), ''''])"
  define hb where "hb = heading @ concat (map f (butlast ps))"
  define x where "x = projr (fill (last ps) w)"
  have "map f (butlast ps @ [last ps]) = map f (butlast ps) @ [f (last ps)]"
    by (simp only: map_append list.simps(8,9))
  then have "map f ps = map f (butlast ps) @ [f (last ps)]"
    unfolding append_butlast_last_id[OF assms(2)] .
  then have "heading @ concat (map f ps) = hb @ [x, '''']"
    by (simp add: hb_def f_def x_def)
  then have parts: "render_paragraphs w heading ps = Inr (hb @ [x, ''''])"
    using render_paragraphs_ok[OF assms(1), of heading ps] by (simp add: f_def)
  have "hb @ [x, ''''] \<noteq> [] \<and> last (hb @ [x, '''']) = '''' \<and> butlast (hb @ [x, '''']) = hb @ [x]"
    by (simp add: butlast_append)
  then have "render_markdown title ps w = Inr (join [CHR 0x0A] (hb @ [x]))"
    unfolding render_markdown_def heading_def[symmetric] parts by simp
  then have "render_markdown title ps w =
      Inr ((if hb = [] then [] else join [CHR 0x0A] hb @ [CHR 0x0A]) @ x)"
    by (simp add: join_snoc_any)
  then show ?thesis unfolding x_def by blast
qed

text \<open>
  C5, as the code has it. With \<open>max_line_len > 0\<close>: when there are paragraphs and the last
  one has a character that is not whitespace, the document ends with the wrapped text of
  that paragraph, which is not empty, and does not end with a blank line; when there are
  no paragraphs the document is the heading \<^verbatim>\<open># title\<close>, or empty for an empty title.
\<close>

theorem render_markdown_ending:
  assumes "0 < w"
  shows "(ps \<noteq> [] \<and> (\<exists>c \<in> set (last ps). \<not> py_isspace c) \<longrightarrow>
            (\<exists>doc wrapped. render_markdown title ps w = Inr doc \<and>
               fill (last ps) w = Inr wrapped \<and> wrapped \<noteq> [] \<and> suffix wrapped doc \<and>
               \<not> ends_with_blank_line doc)) \<and>
         render_markdown title [] w = Inr (if title = [] then [] else ''# '' @ title)"
proof -
  have "render_markdown title [] w = Inr (if title = [] then [] else ''# '' @ title)"
    by (simp add: render_markdown_def)
  moreover have "ps \<noteq> [] \<and> (\<exists>c \<in> set (last ps). \<not> py_isspace c) \<longrightarrow>
            (\<exists>doc wrapped. render_markdown title ps w = Inr doc \<and>
               fill (last ps) w = Inr wrapped \<and> wrapped \<noteq> [] \<and> suffix wrapped doc \<and>
               \<not> ends_with_blank_line doc)"
  proof
    assume a: "ps \<noteq> [] \<and> (\<exists>c \<in> set (last ps). \<not> py_isspace c)"
    obtain wrapped where wr: "fill (last ps) w = Inr wrapped" "wrapped \<noteq> []"
      "last wrapped \<noteq> CHR 0x0A"
      using wrapped_text[OF assms, of "last ps"] a by blast
    obtain pre where d: "render_markdown title ps w = Inr (pre @ wrapped)"
      using render_markdown_last[OF assms, of ps title] a wr(1) by auto
    have "suffix wrapped (pre @ wrapped)" by (simp add: suffix_def)
    moreover have "\<not> ends_with_blank_line (pre @ wrapped)"
      using wr(2,3) by (simp add: ends_with_blank_line_def)
    ultimately show "\<exists>doc wrapped. render_markdown title ps w = Inr doc \<and>
               fill (last ps) w = Inr wrapped \<and> wrapped \<noteq> [] \<and> suffix wrapped doc \<and>
               \<not> ends_with_blank_line doc"
      using d wr by blast
  qed
  ultimately show ?thesis by blast
qed

theorem render_markdown_ending_witness:
  "(0::int) < 3 \<and> [''aa bb'', ''cc''] \<noteq> [] \<and> \<not> py_isspace (CHR ''c'') \<and>
   render_markdown ''T'' [''aa bb'', ''cc''] 3 =
     Inr (''# T'' @ [CHR 0x0A, CHR 0x0A] @ ''aa'' @ [CHR 0x0A] @ ''bb'' @ [CHR 0x0A, CHR 0x0A] @ ''cc'') \<and>
   fill ''cc'' 3 = Inr ''cc'' \<and>
   render_markdown ''T'' [] 3 = Inr ''# T''"
proof -
  have h: "(0::int) < 3" by simp
  have v: "render_markdown ''T'' [''aa bb'', ''cc''] 3 =
     Inr (''# T'' @ [CHR 0x0A, CHR 0x0A] @ ''aa'' @ [CHR 0x0A] @ ''bb'' @ [CHR 0x0A, CHR 0x0A] @ ''cc'')"
    "fill ''cc'' 3 = Inr ''cc''" "\<not> py_isspace (CHR ''c'')"
    by code_simp+
  have "render_markdown ''T'' [] 3 = Inr (if ''T'' = [] then [] else ''# '' @ ''T'')"
    using render_markdown_ending[OF h, of "[]" "''T''"] by blast
  then have "render_markdown ''T'' [] 3 = Inr ''# T''" by simp
  then show ?thesis using h v by simp
qed

theorem render_markdown_blank_ending_counterexample:
  "render_markdown ''T'' [''''] 80 = Inr (''# T'' @ [CHR 0x0A, CHR 0x0A]) \<and>
   ends_with_blank_line (''# T'' @ [CHR 0x0A, CHR 0x0A])"
  by code_simp

section \<open>Words\<close>

lemma takeWhile_stop: "\<not> P c \<Longrightarrow> takeWhile P (xs @ c # b) = takeWhile P xs"
  by (induction xs) auto

lemma dropWhile_stop: "\<not> P c \<Longrightarrow> dropWhile P (xs @ c # b) = dropWhile P xs @ c # b"
  by (induction xs) auto

lemma words_of_ws_split:
  "tw_whitespace c \<Longrightarrow> words_of (a @ c # b) = words_of a @ words_of b"
proof (induction a rule: words_of.induct)
  case 1
  then show ?case by simp
next
  case (2 x xs)
  show ?case
  proof (cases "tw_whitespace x")
    case True
    then show ?thesis using 2 by simp
  next
    case False
    have "takeWhile (\<lambda>d. \<not> tw_whitespace d) (xs @ c # b) = takeWhile (\<lambda>d. \<not> tw_whitespace d) xs"
      "dropWhile (\<lambda>d. \<not> tw_whitespace d) (xs @ c # b) =
       dropWhile (\<lambda>d. \<not> tw_whitespace d) xs @ c # b"
      using 2(3) by (simp_all add: takeWhile_stop dropWhile_stop)
    then show ?thesis using 2(2)[OF False 2(3)] False by simp
  qed
qed

lemma words_of_all_ws: "list_all tw_whitespace b \<Longrightarrow> words_of (b @ s) = words_of s"
  by (induction b) auto

lemma words_of_word: "is_word x \<Longrightarrow> words_of x = [x]"
proof -
  assume "is_word x"
  then obtain c cs where x: "x = c # cs" "\<not> tw_whitespace c" "\<forall>d \<in> set cs. \<not> tw_whitespace d"
    by (cases x) (auto simp add: is_word_def list_all_iff)
  have t: "takeWhile (\<lambda>d. \<not> tw_whitespace d) cs = cs"
    and d: "dropWhile (\<lambda>d. \<not> tw_whitespace d) cs = []"
    using x(3) by simp_all
  show ?thesis by (simp add: x(1,2) t d)
qed

lemma blank_not_word: "is_blank a \<Longrightarrow> \<not> is_word a"
  by (cases a) (auto simp add: is_blank_def is_word_def)

lemma words_of_blank: "is_blank b \<Longrightarrow> words_of (b @ s) = words_of s"
  by (simp add: is_blank_def words_of_all_ws)

lemma words_of_word_blank:
  assumes "is_word x" "is_blank b"
  shows "words_of (x @ b @ s) = x # words_of s"
proof -
  obtain c cs where b: "b = c # cs" "tw_whitespace c" "list_all tw_whitespace cs"
    using assms(2) by (cases b) (auto simp add: is_blank_def)
  have "words_of (x @ c # (cs @ s)) = words_of x @ words_of (cs @ s)"
    using words_of_ws_split[OF b(2)] .
  then show ?thesis using b words_of_word[OF assms(1)] words_of_all_ws[OF b(3)] by simp
qed

lemma words_of_separated: "separated cs \<Longrightarrow> words_of (concat cs) = filter is_word cs"
proof (induction cs rule: separated.induct)
  case 1
  then show ?case by simp
next
  case (2 a)
  then show ?case
    using words_of_word[of a] words_of_blank[of a "[]"] blank_not_word[of a] by auto
next
  case (3 a b cs)
  have r: "words_of (concat (b # cs)) = filter is_word (b # cs)" using 3 by simp
  show ?case
  proof (cases "is_blank a")
    case True
    then show ?thesis using r words_of_blank[OF True, of "concat (b # cs)"] blank_not_word[OF True]
      by simp
  next
    case False
    then have w: "is_word a" "is_blank b" using 3(2) by simp_all
    have "words_of (concat (a # b # cs)) = a # words_of (concat cs)"
      using words_of_word_blank[OF w, of "concat cs"] by simp
    moreover have "words_of (concat cs) = filter is_word cs"
      using r words_of_blank[OF w(2), of "concat cs"] blank_not_word[OF w(2)] by simp
    ultimately show ?thesis using w blank_not_word[OF w(2)] by simp
  qed
qed

lemma separated_Cons: "separated (a # cs) \<Longrightarrow> separated cs"
  by (cases cs) auto

lemma separated_right: "separated (xs @ ys) \<Longrightarrow> separated ys"
  by (induction xs) (auto dest: separated_Cons)

lemma separated_left: "separated (xs @ ys) \<Longrightarrow> separated xs"
proof (induction xs rule: separated.induct)
  case 1
  then show ?case by simp
next
  case (2 a)
  then show ?case by (cases ys) auto
next
  case (3 a b cs)
  then show ?case by simp
qed

lemma separated_butlast: "separated xs \<Longrightarrow> separated (butlast xs)"
proof (cases "xs = []")
  case True
  then show ?thesis by simp
next
  case False
  assume "separated xs"
  then have "separated (butlast xs @ [last xs])" using False by simp
  then show ?thesis by (rule separated_left)
qed

lemma separated_kind: "separated cs \<Longrightarrow> c \<in> set cs \<Longrightarrow> is_blank c \<or> is_word c"
  by (induction cs rule: separated.induct) auto

lemma separated_blank_Cons: "is_blank a \<Longrightarrow> separated cs \<Longrightarrow> separated (a # cs)"
  by (cases cs) auto

lemma subseq_filter_butlast: "subseq (filter P (butlast xs)) (filter P xs)"
proof (cases "xs = []")
  case True
  then show ?thesis by simp
next
  case False
  then have "xs = butlast xs @ [last xs]" by simp
  then have "filter P xs = filter P (butlast xs) @ filter P [last xs]"
    by (metis filter_append)
  then show ?thesis by (simp add: subseq_rev_drop_many)
qed

lemma words_of_join_newline:
  "words_of (join [CHR 0x0A] ls) = concat (map words_of ls)"
proof (induction "[CHR 0x0A]" ls rule: join.induct)
  case 1
  then show ?case by simp
next
  case (2 x)
  then show ?case by simp
next
  case (3 x y ys)
  have "tw_whitespace (CHR 0x0A)" by (simp add: tw_whitespace_def)
  from words_of_ws_split[OF this, of x "join [CHR 0x0A] (y # ys)"]
  show ?case using 3 by simp
qed

section \<open>Wrapping keeps words whole\<close>

lemma all_ws_strip: "list_all tw_whitespace s \<Longrightarrow> strip s = []"
  using tw_whitespace_isspace by (simp add: strip_empty_iff list_all_iff)

lemma wrap_step_words:
  assumes "0 < width" "separated chunks"
    and "\<forall>c \<in> set chunks. is_word c \<longrightarrow> int (length c) \<le> width"
  shows "separated (fst (wrap_step width started chunks)) \<and>
         separated (snd (wrap_step width started chunks)) \<and>
         (\<forall>c \<in> set (snd (wrap_step width started chunks)). is_word c \<longrightarrow> int (length c) \<le> width) \<and>
         subseq (filter is_word (fst (wrap_step width started chunks)) @
                 filter is_word (snd (wrap_step width started chunks)))
                (filter is_word chunks)"
  using assms(1)
proof (cases rule: wrap_step_cases[where chunks=chunks and started=started, consumes 1, case_names fit long])
  case (fit d taken rest)
  define f where "f = (if taken \<noteq> [] \<and> strip (last taken) = [] then butlast taken else taken)"
  have st: "fst (wrap_step width started chunks) = f" "snd (wrap_step width started chunks) = rest"
    using fit(5) by (simp_all add: f_def)
  have s: "separated taken" "separated rest"
    using assms(2) fit(1) separated_left separated_right by blast+
  then have sf: "separated f" using separated_butlast by (simp add: f_def)
  have "subseq (filter is_word f) (filter is_word taken)"
    using subseq_filter_butlast[of is_word taken] by (simp add: f_def)
  then have "subseq (filter is_word f @ filter is_word rest)
               (filter is_word taken @ filter is_word rest)"
    by (simp add: subseq_append)
  then have "subseq (filter is_word f @ filter is_word rest) (filter is_word chunks)"
    unfolding fit(1) filter_append by (rule subseq_drop_many)
  moreover have "\<forall>c \<in> set rest. is_word c \<longrightarrow> int (length c) \<le> width"
    using assms(3) fit(1) by simp
  ultimately show ?thesis unfolding st using sf s(2) by blast
next
  case (long d taken c rest e)
  have "c \<in> set chunks" using long(1) by simp
  then have "\<not> is_word c" "is_blank c \<or> is_word c"
    using assms(3) long(3) separated_kind[OF assms(2)] by auto
  then have bc: "is_blank c" by simp
  have "int e < int (length c)" using long(3,4) by simp
  then have "drop e c \<noteq> []" by simp
  moreover have "list_all tw_whitespace (drop e c)" "list_all tw_whitespace (take e c)"
    using bc by (auto simp add: is_blank_def list_all_iff dest: in_set_dropD in_set_takeD)
  ultimately have bd: "is_blank (drop e c)" "strip (take e c) = []"
    using all_ws_strip by (simp_all add: is_blank_def)
  have st: "fst (wrap_step width started chunks) = taken"
    "snd (wrap_step width started chunks) = drop e c # rest"
    using long(6) bd(2) by simp_all
  have s: "separated taken" "separated (c # rest)"
    using assms(2) long(1) separated_left[of "d @ taken" "c # rest"] separated_right[of d taken]
      separated_right[of "d @ taken" "c # rest"] by auto
  have sr: "separated (drop e c # rest)"
    using separated_blank_Cons[OF bd(1) separated_Cons[OF s(2)]] .
  have "filter is_word (drop e c # rest) = filter is_word rest"
    "filter is_word chunks = filter is_word d @ filter is_word taken @ filter is_word rest"
    using blank_not_word[OF bd(1)] blank_not_word[OF bc] long(1) by simp_all
  then have "subseq (filter is_word taken @ filter is_word (drop e c # rest)) (filter is_word chunks)"
    by (simp add: subseq_drop_many)
  moreover have "\<forall>x \<in> set (drop e c # rest). is_word x \<longrightarrow> int (length x) \<le> width"
    using assms(3) long(1) blank_not_word[OF bd(1)] by auto
  ultimately show ?thesis unfolding st using s(1) sr by blast
qed

lemma wrap_loop_words:
  assumes "0 < width" "separated chunks"
    and "\<forall>c \<in> set chunks. is_word c \<longrightarrow> int (length c) \<le> width"
  shows "subseq (concat (map words_of (wrap_loop width [] chunks))) (filter is_word chunks)"
proof -
  define W where "W = filter is_word chunks"
  have "(\<lambda>ls cs. separated cs \<and> (\<forall>c \<in> set cs. is_word c \<longrightarrow> int (length c) \<le> width) \<and>
                 subseq (concat (map words_of ls) @ filter is_word cs) W)
          (wrap_loop width [] chunks) []"
  proof (rule wrap_loop_invariant[OF assms(1)])
    show "separated chunks \<and> (\<forall>c \<in> set chunks. is_word c \<longrightarrow> int (length c) \<le> width) \<and>
          subseq (concat (map words_of []) @ filter is_word chunks) W"
      using assms(2,3) by (simp add: W_def)
  next
    fix ls cs :: "string list"
    assume a: "separated cs \<and> (\<forall>c \<in> set cs. is_word c \<longrightarrow> int (length c) \<le> width) \<and>
               subseq (concat (map words_of ls) @ filter is_word cs) W"
    define f where "f = fst (wrap_step width (ls \<noteq> []) cs)"
    define s where "s = snd (wrap_step width (ls \<noteq> []) cs)"
    have p: "separated f" "separated s" "\<forall>c \<in> set s. is_word c \<longrightarrow> int (length c) \<le> width"
      "subseq (filter is_word f @ filter is_word s) (filter is_word cs)"
      using wrap_step_words[OF assms(1), of cs "ls \<noteq> []"] a by (simp_all add: f_def s_def)
    have "concat (map words_of (if f \<noteq> [] then ls @ [concat f] else ls)) =
          concat (map words_of ls) @ filter is_word f"
      using words_of_separated[OF p(1)] by auto
    moreover have "subseq (concat (map words_of ls) @ filter is_word f @ filter is_word s) W"
      using p(4) a subseq_append'[of "concat (map words_of ls)"] subseq_order.trans by blast
    ultimately have "subseq (concat (map words_of (if f \<noteq> [] then ls @ [concat f] else ls)) @
                             filter is_word s) W"
      by simp
    then show "separated (snd (wrap_step width (ls \<noteq> []) cs)) \<and>
          (\<forall>c \<in> set (snd (wrap_step width (ls \<noteq> []) cs)). is_word c \<longrightarrow> int (length c) \<le> width) \<and>
          subseq (concat (map words_of
                    (if fst (wrap_step width (ls \<noteq> []) cs) \<noteq> []
                     then ls @ [concat (fst (wrap_step width (ls \<noteq> []) cs))] else ls)) @
                  filter is_word (snd (wrap_step width (ls \<noteq> []) cs))) W"
      using p(2,3) unfolding f_def s_def by blast
  qed
  then show ?thesis by (simp add: W_def)
qed

section \<open>Chunks of a text without hyphens\<close>

lemma emdash_len_plain: "c \<noteq> CHR ''-'' \<Longrightarrow> emdash_len (c # cs) = None"
  by (simp add: emdash_len_def)

lemma hyphen_break_plain: "c \<noteq> CHR ''-'' \<Longrightarrow> \<not> hyphen_break prev (c # cs)"
  by (simp add: hyphen_break_def)

lemma word_chunk_plain:
  "CHR ''-'' \<notin> set cs \<Longrightarrow>
   word_chunk prev acc cs =
     (acc @ takeWhile (\<lambda>d. \<not> tw_whitespace d) cs, dropWhile (\<lambda>d. \<not> tw_whitespace d) cs)"
proof (induction prev acc cs rule: word_chunk.induct)
  case (1 prev acc)
  then show ?case by simp
next
  case (2 prev acc c cs)
  have c: "c \<noteq> CHR ''-''" "CHR ''-'' \<notin> set cs" using 2(2) by auto
  show ?case
  proof (cases "tw_whitespace c")
    case True
    then show ?thesis using hyphen_break_plain[OF c(1)] by simp
  next
    case False
    have n: "\<not> ((case prev of [] \<Rightarrow> False | p # _ \<Rightarrow> word_punct p) \<and> emdash_len (c # cs) \<noteq> None)"
      using emdash_len_plain[OF c(1)] by simp
    show ?thesis
      using 2(1)[OF hyphen_break_plain[OF c(1)] False n c(2)] False
        hyphen_break_plain[OF c(1)] emdash_len_plain[OF c(1)] by simp
  qed
qed

lemma split_from_plain:
  assumes "CHR ''-'' \<notin> set t"
  shows "separated (split_from prev t) \<and>
         (t \<noteq> [] \<and> tw_whitespace (hd t) \<longrightarrow> is_blank (hd (split_from prev t)))"
  using assms
proof (induction prev t rule: split_from.induct)
  case (1 prev)
  then show ?case by simp
next
  case (2 prev c cs)
  have c: "c \<noteq> CHR ''-''" "CHR ''-'' \<notin> set cs" using 2(4) by auto
  show ?case
  proof (cases "tw_whitespace c")
    case True
    define run where "run = takeWhile tw_whitespace (c # cs)"
    define rest where "rest = dropWhile tw_whitespace (c # cs)"
    have "set rest \<subseteq> set (c # cs)" unfolding rest_def by (auto dest: set_dropWhileD)
    then have h: "CHR ''-'' \<notin> set rest" using 2(4) by auto
    have b: "is_blank run" using True
      by (auto simp add: run_def is_blank_def list_all_iff dest: set_takeWhileD)
    have "separated (split_from (rev run @ prev) rest)"
      using 2(1)[OF True run_def] h by (simp add: rest_def)
    then have "separated (run # split_from (rev run @ prev) rest)"
      using separated_blank_Cons[OF b] by simp
    moreover have u: "split_from prev (c # cs) = run # split_from (rev run @ prev) rest"
      using True by (simp add: Let_def run_def rest_def)
    ultimately show ?thesis unfolding u using b by simp
  next
    case False
    have em: "(if (case prev of [] \<Rightarrow> False | p # _ \<Rightarrow> word_punct p) then emdash_len (c # cs)
               else None) = None"
      using emdash_len_plain[OF c(1)] by simp
    define chunk where "chunk = c # takeWhile (\<lambda>d. \<not> tw_whitespace d) cs"
    define rest where "rest = dropWhile (\<lambda>d. \<not> tw_whitespace d) cs"
    have wc: "(chunk, rest) = word_chunk (c # prev) [c] cs"
      using word_chunk_plain[OF c(2), of "c # prev" "[c]"] by (simp add: chunk_def rest_def)
    have "set rest \<subseteq> set cs" unfolding rest_def by (auto dest: set_dropWhileD)
    then have h: "CHR ''-'' \<notin> set rest" using c(2) by auto
    have ih: "separated (split_from (rev chunk @ prev) rest)"
      "rest \<noteq> [] \<and> tw_whitespace (hd rest) \<longrightarrow> is_blank (hd (split_from (rev chunk @ prev) rest))"
      using 2(2)[OF False em wc h] by simp_all
    have w: "is_word chunk" using False
      by (auto simp add: chunk_def is_word_def list_all_iff dest: set_takeWhileD)
    have u: "split_from prev (c # cs) = chunk # split_from (rev chunk @ prev) rest"
      using False em wc[symmetric] by simp
    have "separated (chunk # split_from (rev chunk @ prev) rest)"
    proof (cases "rest = []")
      case True
      then show ?thesis using w by simp
    next
      case r: False
      then have "tw_whitespace (hd rest)" using hd_dropWhile[of "\<lambda>d. \<not> tw_whitespace d" cs]
        by (simp add: rest_def)
      then have "is_blank (hd (split_from (rev chunk @ prev) rest))" using ih(2) r by simp
      moreover have "split_from (rev chunk @ prev) rest \<noteq> []"
        using split_from_concat[of "rev chunk @ prev" rest] r by auto
      ultimately show ?thesis using w ih(1)
        by (cases "split_from (rev chunk @ prev) rest") simp_all
    qed
    then show ?thesis unfolding u using False by simp
  qed
qed

section \<open>Whitespace munging keeps the words\<close>

lemma munge_span:
  "\<exists>col'. takeWhile (\<lambda>d. \<not> tw_whitespace d)
             (map (\<lambda>c. if tw_whitespace c then CHR '' '' else c) (expandtabs col cs)) =
           takeWhile (\<lambda>d. \<not> tw_whitespace d) cs \<and>
          dropWhile (\<lambda>d. \<not> tw_whitespace d)
             (map (\<lambda>c. if tw_whitespace c then CHR '' '' else c) (expandtabs col cs)) =
           map (\<lambda>c. if tw_whitespace c then CHR '' '' else c)
             (expandtabs col' (dropWhile (\<lambda>d. \<not> tw_whitespace d) cs))"
proof (induction cs arbitrary: col)
  case Nil
  then show ?case by simp
next
  case (Cons c cs)
  have sp: "tw_whitespace (CHR '' '')" "tw_whitespace (CHR 0x09)" by (simp_all add: tw_whitespace_def)
  show ?case
  proof (cases "tw_whitespace c")
    case True
    have "expandtabs col (c # cs) \<noteq> [] \<and>
          tw_whitespace (hd (map (\<lambda>c. if tw_whitespace c then CHR '' '' else c) (expandtabs col (c # cs))))"
    proof (cases "c = CHR 0x09")
      case t: True
      have "0 < 8 - col mod 8" by (simp add: less_imp_le)
      then obtain k where "8 - col mod 8 = Suc k" using gr0_implies_Suc by blast
      then have "replicate (8 - col mod 8) (CHR '' '') = CHR '' '' # replicate k (CHR '' '')"
        by simp
      then show ?thesis using t sp by (simp add: Let_def)
    next
      case False
      then show ?thesis using True sp by simp
    qed
    then have "takeWhile (\<lambda>d. \<not> tw_whitespace d)
             (map (\<lambda>c. if tw_whitespace c then CHR '' '' else c) (expandtabs col (c # cs))) = []"
      "dropWhile (\<lambda>d. \<not> tw_whitespace d)
             (map (\<lambda>c. if tw_whitespace c then CHR '' '' else c) (expandtabs col (c # cs))) =
       map (\<lambda>c. if tw_whitespace c then CHR '' '' else c) (expandtabs col (c # cs))"
      by (cases "map (\<lambda>c. if tw_whitespace c then CHR '' '' else c) (expandtabs col (c # cs))";
          simp)+
    then show ?thesis using True by (intro exI[of _ col]) simp
  next
    case False
    then have n: "c \<noteq> CHR 0x09" "c \<noteq> CHR 0x0A" "c \<noteq> CHR 0x0D" by (auto simp add: tw_whitespace_def)
    obtain col' where "takeWhile (\<lambda>d. \<not> tw_whitespace d)
             (map (\<lambda>c. if tw_whitespace c then CHR '' '' else c) (expandtabs (Suc col) cs)) =
           takeWhile (\<lambda>d. \<not> tw_whitespace d) cs"
          "dropWhile (\<lambda>d. \<not> tw_whitespace d)
             (map (\<lambda>c. if tw_whitespace c then CHR '' '' else c) (expandtabs (Suc col) cs)) =
           map (\<lambda>c. if tw_whitespace c then CHR '' '' else c)
             (expandtabs col' (dropWhile (\<lambda>d. \<not> tw_whitespace d) cs))"
      using Cons[of "Suc col"] by blast
    then show ?thesis using False n by (intro exI[of _ col']) simp
  qed
qed

lemma words_of_munged:
  "words_of (map (\<lambda>c. if tw_whitespace c then CHR '' '' else c) (expandtabs col t)) = words_of t"
proof (induction t arbitrary: col rule: words_of.induct)
  case 1
  then show ?case by simp
next
  case (2 c cs)
  have sp: "tw_whitespace (CHR '' '')" by (simp add: tw_whitespace_def)
  show ?case
  proof (cases "tw_whitespace c")
    case True
    have r: "list_all tw_whitespace (replicate (8 - col mod 8) (CHR '' ''))"
      using sp by (simp add: list_all_iff)
    show ?thesis
    proof (cases "c = CHR 0x09")
      case t: True
      then show ?thesis using True 2(1)[OF True] words_of_all_ws[OF r] by (simp add: Let_def)
    next
      case False
      then show ?thesis using True 2(1)[OF True] sp by simp
    qed
  next
    case False
    then have n: "c \<noteq> CHR 0x09" "c \<noteq> CHR 0x0A" "c \<noteq> CHR 0x0D" by (auto simp add: tw_whitespace_def)
    obtain col' where s: "takeWhile (\<lambda>d. \<not> tw_whitespace d)
             (map (\<lambda>c. if tw_whitespace c then CHR '' '' else c) (expandtabs (Suc col) cs)) =
           takeWhile (\<lambda>d. \<not> tw_whitespace d) cs"
          "dropWhile (\<lambda>d. \<not> tw_whitespace d)
             (map (\<lambda>c. if tw_whitespace c then CHR '' '' else c) (expandtabs (Suc col) cs)) =
           map (\<lambda>c. if tw_whitespace c then CHR '' '' else c)
             (expandtabs col' (dropWhile (\<lambda>d. \<not> tw_whitespace d) cs))"
      using munge_span[of "Suc col" cs] by blast
    show ?thesis using False n 2(2)[OF False, of col'] by (simp add: s)
  qed
qed

lemma set_munge: "set (munge_whitespace t) \<subseteq> set t \<union> {CHR '' ''}"
proof -
  have "set (expandtabs col t) \<subseteq> set t \<union> {CHR '' ''}" for col
    by (induction col t rule: expandtabs.induct) (auto simp add: Let_def)
  then show ?thesis unfolding munge_whitespace_def by auto
qed

lemma wrapped_words:
  assumes "0 < w" "CHR ''-'' \<notin> set p" "\<forall>x \<in> set (words_of p). int (length x) \<le> w"
  shows "subseq (words_of (join [CHR 0x0A] (wrap_loop w [] (split_chunks p)))) (words_of p)"
proof -
  have "CHR ''-'' \<notin> set (munge_whitespace p)" using set_munge[of p] assms(2) by auto
  then have s: "separated (split_chunks p)"
    using split_from_plain[of "munge_whitespace p" "[]"] by (simp add: split_chunks_def)
  have "words_of (concat (split_chunks p)) = words_of p"
    by (simp add: split_chunks_def split_from_concat munge_whitespace_def words_of_munged)
  then have f: "filter is_word (split_chunks p) = words_of p"
    using words_of_separated[OF s] by simp
  then have "\<forall>c \<in> set (split_chunks p). is_word c \<longrightarrow> c \<in> set (words_of p)"
    by (metis (mono_tags, lifting) mem_Collect_eq set_filter)
  then have b: "\<forall>c \<in> set (split_chunks p). is_word c \<longrightarrow> int (length c) \<le> w"
    using assms(3) by blast
  show ?thesis
    using wrap_loop_words[OF assms(1) s b] f by (simp add: words_of_join_newline)
qed

text \<open>
  C4, as the code has it. With \<open>max_line_len > 0\<close>, the text \<^verbatim>\<open>render_markdown\<close> emits for
  a paragraph is the result of \<^verbatim>\<open>textwrap.fill\<close>: it is the whole document when the
  paragraph is alone under no title, and the part the loop appends for the paragraph
  otherwise. None of its lines is longer than \<open>max_line_len\<close>, and its characters that
  are not whitespace are those of the paragraph, in the same order. When the paragraph has
  no hyphen and none of its words is longer than \<open>max_line_len\<close>, every word of the emitted
  text is a whole word of the paragraph, in the paragraph's order: lines break between
  words only.
\<close>

theorem render_markdown_wrapping:
  assumes "0 < w"
  shows "\<exists>wrapped. fill p w = Inr wrapped \<and>
           render_markdown [] [p] w = Inr wrapped \<and>
           render_paragraphs w parts (p # ps) = render_paragraphs w (parts @ [wrapped, '''']) ps \<and>
           (\<forall>l \<in> set (split_lines wrapped). int (length l) \<le> w) \<and>
           filter (\<lambda>c. \<not> py_isspace c) wrapped = filter (\<lambda>c. \<not> py_isspace c) p \<and>
           (CHR ''-'' \<notin> set p \<and> (\<forall>x \<in> set (words_of p). int (length x) \<le> w) \<longrightarrow>
              subseq (words_of wrapped) (words_of p))"
proof -
  obtain wrapped where wr: "fill p w = Inr wrapped"
    "\<forall>l \<in> set (split_lines wrapped). int (length l) \<le> w"
    "filter (\<lambda>c. \<not> py_isspace c) wrapped = filter (\<lambda>c. \<not> py_isspace c) p"
    using wrapped_text[OF assms, of p] by blast
  have e: "wrapped = join [CHR 0x0A] (wrap_loop w [] (split_chunks p))"
    using wr(1) wrapped_lines(1)[OF assms, of p] by simp
  have "render_markdown [] [p] w = Inr wrapped" using wr(1) by (simp add: render_markdown_def)
  moreover have "render_paragraphs w parts (p # ps) =
                 render_paragraphs w (parts @ [wrapped, '''']) ps"
    using wr(1) by simp
  moreover have "CHR ''-'' \<notin> set p \<and> (\<forall>x \<in> set (words_of p). int (length x) \<le> w) \<longrightarrow>
              subseq (words_of wrapped) (words_of p)"
    unfolding e using wrapped_words[OF assms, of p] by blast
  ultimately show ?thesis using wr by blast
qed

theorem render_markdown_wrapping_witness:
  "(0::int) < 10 \<and> CHR ''-'' \<notin> set ''Lorem ipsum dolor sit amet.'' \<and>
   words_of ''Lorem ipsum dolor sit amet.'' = [''Lorem'', ''ipsum'', ''dolor'', ''sit'', ''amet.''] \<and>
   fill ''Lorem ipsum dolor sit amet.'' 10 =
     Inr (''Lorem'' @ [CHR 0x0A] @ ''ipsum'' @ [CHR 0x0A] @ ''dolor sit'' @ [CHR 0x0A] @ ''amet.'') \<and>
   subseq (words_of (''Lorem'' @ [CHR 0x0A] @ ''ipsum'' @ [CHR 0x0A] @ ''dolor sit'' @ [CHR 0x0A] @ ''amet.''))
          (words_of ''Lorem ipsum dolor sit amet.'')"
proof -
  define p where "p = ''Lorem ipsum dolor sit amet.''"
  define out where
    "out = ''Lorem'' @ [CHR 0x0A] @ ''ipsum'' @ [CHR 0x0A] @ ''dolor sit'' @ [CHR 0x0A] @ ''amet.''"
  have h: "(0::int) < 10" by simp
  have n: "CHR ''-'' \<notin> set p" unfolding p_def by simp
  have ws: "words_of p = [''Lorem'', ''ipsum'', ''dolor'', ''sit'', ''amet.'']"
    unfolding p_def by code_simp
  have b: "\<forall>x \<in> set (words_of p). int (length x) \<le> 10"
    unfolding ws by simp
  have v: "fill p 10 = Inr out" unfolding p_def out_def by code_simp
  from render_markdown_wrapping[OF h, of p "[]" "[]"]
  obtain wrapped where wr: "fill p 10 = Inr wrapped"
    and im: "CHR ''-'' \<notin> set p \<and> (\<forall>x \<in> set (words_of p). int (length x) \<le> 10) \<longrightarrow>
              subseq (words_of wrapped) (words_of p)"
    by blast
  have "wrapped = out" using wr v by simp
  then have "subseq (words_of out) (words_of p)" using im n b by simp
  then show ?thesis using h n ws v unfolding p_def out_def by (intro conjI)
qed

theorem render_markdown_mid_word_counterexample:
  "render_markdown [] [''Lorem.''] 3 = Inr (''Lor'' @ [CHR 0x0A] @ ''em.'') \<and>
   words_of ''Lorem.'' = [''Lorem.''] \<and>
   words_of (''Lor'' @ [CHR 0x0A] @ ''em.'') = [''Lor'', ''em.''] \<and>
   render_markdown [] [''a goof-ball''] 10 = Inr (''a goof-'' @ [CHR 0x0A] @ ''ball'') \<and>
   words_of ''a goof-ball'' = [''a'', ''goof-ball''] \<and>
   words_of (''a goof-'' @ [CHR 0x0A] @ ''ball'') = [''a'', ''goof-'', ''ball'']"
proof -
  have a1: "render_markdown [] [''Lorem.''] 3 = Inr (''Lor'' @ [CHR 0x0A] @ ''em.'')"
    by code_simp
  have a2: "words_of ''Lorem.'' = [''Lorem.'']" by code_simp
  have a3: "words_of (''Lor'' @ [CHR 0x0A] @ ''em.'') = [''Lor'', ''em.'']" by code_simp
  have a4: "render_markdown [] [''a goof-ball''] 10 = Inr (''a goof-'' @ [CHR 0x0A] @ ''ball'')"
    by code_simp
  have a5: "words_of ''a goof-ball'' = [''a'', ''goof-ball'']" by code_simp
  have a6: "words_of (''a goof-'' @ [CHR 0x0A] @ ''ball'') = [''a'', ''goof-'', ''ball'']"
    by code_simp
  show ?thesis using a1 a2 a3 a4 a5 a6 by (intro conjI)
qed

end
